theory Spec2Isabelle
  imports Complex_Main
begin

section \<open>Scalars\<close>

text \<open>
  The kernels compute on \<^verbatim>\<open>scalar_t\<close> (float or double). The embedding keeps the
  special values of IEEE arithmetic, which the accumulator depends on (the running
  maximum starts at minus infinity), and computes exactly on the finite values: there is
  no rounding, no overflow and no underflow. Zero has no sign; a division by zero
  treats it as \<open>+0\<close>.
\<close>

datatype scalar = Fin real | PInf | NInf | NaN

fun is_Fin :: "scalar \<Rightarrow> bool" where
  "is_Fin (Fin x) = True"
| "is_Fin PInf = False"
| "is_Fin NInf = False"
| "is_Fin NaN = False"

fun fin_val :: "scalar \<Rightarrow> real" where
  "fin_val (Fin x) = x"
| "fin_val PInf = 0"
| "fin_val NInf = 0"
| "fin_val NaN = 0"

fun sneg :: "scalar \<Rightarrow> scalar" where
  "sneg (Fin x) = Fin (- x)"
| "sneg PInf = NInf"
| "sneg NInf = PInf"
| "sneg NaN = NaN"

fun sadd :: "scalar \<Rightarrow> scalar \<Rightarrow> scalar" where
  "sadd (Fin a) (Fin b) = Fin (a + b)"
| "sadd (Fin a) PInf = PInf"
| "sadd (Fin a) NInf = NInf"
| "sadd PInf (Fin b) = PInf"
| "sadd PInf PInf = PInf"
| "sadd PInf NInf = NaN"
| "sadd NInf (Fin b) = NInf"
| "sadd NInf PInf = NaN"
| "sadd NInf NInf = NInf"
| "sadd NaN b = NaN"
| "sadd (Fin a) NaN = NaN"
| "sadd PInf NaN = NaN"
| "sadd NInf NaN = NaN"

definition ssub :: "scalar \<Rightarrow> scalar \<Rightarrow> scalar" where
  "ssub a b = sadd a (sneg b)"

fun smul :: "scalar \<Rightarrow> scalar \<Rightarrow> scalar" where
  "smul (Fin a) (Fin b) = Fin (a * b)"
| "smul (Fin a) PInf = (if a = 0 then NaN else if 0 < a then PInf else NInf)"
| "smul (Fin a) NInf = (if a = 0 then NaN else if 0 < a then NInf else PInf)"
| "smul PInf (Fin b) = (if b = 0 then NaN else if 0 < b then PInf else NInf)"
| "smul NInf (Fin b) = (if b = 0 then NaN else if 0 < b then NInf else PInf)"
| "smul PInf PInf = PInf"
| "smul PInf NInf = NInf"
| "smul NInf PInf = NInf"
| "smul NInf NInf = PInf"
| "smul NaN b = NaN"
| "smul (Fin a) NaN = NaN"
| "smul PInf NaN = NaN"
| "smul NInf NaN = NaN"

fun sdiv :: "scalar \<Rightarrow> scalar \<Rightarrow> scalar" where
  "sdiv (Fin a) (Fin b) =
     (if b \<noteq> 0 then Fin (a / b)
      else if a = 0 then NaN else if 0 < a then PInf else NInf)"
| "sdiv (Fin a) PInf = Fin 0"
| "sdiv (Fin a) NInf = Fin 0"
| "sdiv PInf (Fin b) = (if 0 \<le> b then PInf else NInf)"
| "sdiv NInf (Fin b) = (if 0 \<le> b then NInf else PInf)"
| "sdiv PInf PInf = NaN"
| "sdiv PInf NInf = NaN"
| "sdiv NInf PInf = NaN"
| "sdiv NInf NInf = NaN"
| "sdiv NaN b = NaN"
| "sdiv (Fin a) NaN = NaN"
| "sdiv PInf NaN = NaN"
| "sdiv NInf NaN = NaN"

fun sexp :: "scalar \<Rightarrow> scalar" where
  "sexp (Fin x) = Fin (exp x)"
| "sexp PInf = PInf"
| "sexp NInf = Fin 0"
| "sexp NaN = NaN"

text \<open>The comparison \<^verbatim>\<open>a > b\<close>: false as soon as one side is NaN.\<close>

fun sgt :: "scalar \<Rightarrow> scalar \<Rightarrow> bool" where
  "sgt (Fin a) (Fin b) = (b < a)"
| "sgt (Fin a) PInf = False"
| "sgt (Fin a) NInf = True"
| "sgt PInf (Fin b) = True"
| "sgt PInf PInf = False"
| "sgt PInf NInf = True"
| "sgt NInf b = False"
| "sgt NaN b = False"
| "sgt (Fin a) NaN = False"
| "sgt PInf NaN = False"

text \<open>\<open>a \<le> 0\<close> on scalars, for the arguments handed to \<^verbatim>\<open>std::exp\<close>.\<close>

fun nonpos :: "scalar \<Rightarrow> bool" where
  "nonpos (Fin x) = (x \<le> 0)"
| "nonpos NInf = True"
| "nonpos PInf = False"
| "nonpos NaN = False"

section \<open>Tensors and accessors\<close>

datatype dtype = Float32 | Float64 | Float16 | BFloat16 | Int32 | Int64 | Bool8

text \<open>
  A dense tensor: its sizes (the rank is their number), whether its layout is
  contiguous, its element type, and its storage in row-major order. The storage of a
  floating-point tensor holds scalars, that of an integer tensor integers, that of a
  mask booleans.
\<close>

record 'a tensor =
  sizes :: "nat list"
  contiguous :: bool
  scalar_type :: dtype
  elems :: "'a list"

definition dim :: "'a tensor \<Rightarrow> nat" where
  "dim t = length (sizes t)"

text \<open>
  \<^verbatim>\<open>at::TensorAccessor<scalar_t, 3>\<close>: three sizes and the data pointer. On a
  contiguous tensor the strides are \<open>size1 * size2\<close>, \<open>size2\<close> and \<open>1\<close>.
\<close>

record accessor3 =
  size0 :: nat
  size1 :: nat
  size2 :: nat
  mem :: "scalar list"

text \<open>
  A read through a raw pointer is not checked by the C++. A read outside the storage
  is undefined behaviour; the embedding makes it the value \<open>None\<close>.
\<close>

definition rd :: "'a list \<Rightarrow> nat \<Rightarrow> 'a option" where
  "rd xs i = (if i < length xs then Some (xs ! i) else None)"

type_synonym ptr = "scalar list \<times> nat"

text \<open>\<^verbatim>\<open>a[i][j].data()\<close>: the pointer to row \<open>j\<close> of batch \<open>i\<close>.\<close>

definition row_ptr :: "accessor3 \<Rightarrow> nat \<Rightarrow> nat \<Rightarrow> ptr" where
  "row_ptr a i j = (mem a, (i * size1 a + j) * size2 a)"

text \<open>\<^verbatim>\<open>p[k]\<close>.\<close>

definition ld :: "ptr \<Rightarrow> nat \<Rightarrow> scalar option" where
  "ld p k = rd (fst p) (snd p + k)"

section \<open>The scalar attention kernel (cpu/attention.cpp)\<close>

text \<open>
  The running statistics of one query row: the accumulator row \<^verbatim>\<open>buf\<close> (the
  thread's scratch row of \<open>K\<close> entries), the normalizing sum \<^verbatim>\<open>s_prime\<close> and
  the running maximum \<^verbatim>\<open>m_prime\<close>.
\<close>

record row_state =
  buf :: "scalar list"
  s_prime :: scalar
  m_prime :: scalar

text \<open>
  \<^verbatim>\<open>fill_zero(buf, K)\<close> writes zero to the \<open>K\<close> entries of the scratch row, which
  \<^verbatim>\<open>attention\<close> allocates with exactly \<open>K\<close> entries per thread.
\<close>

definition fill_zero :: "nat \<Rightarrow> scalar list" where
  "fill_zero K = replicate K (Fin 0)"

text \<open>
  Lines 48 to 51: \<^verbatim>\<open>si = 0; for k < K: si += aar[k] * bar[k]\<close>. The list argument
  holds the values of \<open>k\<close> still to run.
\<close>

fun dot_loop :: "ptr \<Rightarrow> ptr \<Rightarrow> nat list \<Rightarrow> scalar \<Rightarrow> scalar option" where
  "dot_loop aar bar [] si = Some si"
| "dot_loop aar bar (k # ks) si =
     (case ld aar k of
        None \<Rightarrow> None
      | Some a \<Rightarrow>
          (case ld bar k of
             None \<Rightarrow> None
           | Some b \<Rightarrow> dot_loop aar bar ks (sadd si (smul a b))))"

text \<open>
  Lines 58 to 60: \<^verbatim>\<open>for k < K: buf[k] = buf[k] * m_delta + vi[k] * s_delta\<close>.
\<close>

fun acc_loop :: "ptr \<Rightarrow> scalar \<Rightarrow> scalar \<Rightarrow> nat list \<Rightarrow> scalar list \<Rightarrow> scalar list option" where
  "acc_loop vi m_delta s_delta [] b = Some b"
| "acc_loop vi m_delta s_delta (k # ks) b =
     (case ld vi k of
        None \<Rightarrow> None
      | Some v \<Rightarrow>
          (if k < length b
           then acc_loop vi m_delta s_delta ks
                  (b[k := sadd (smul (b ! k) m_delta) (smul v s_delta)])
           else None))"

text \<open>
  Lines 52 to 63: one key with raw score \<open>si\<close> and value row \<open>vi\<close> is folded into the
  running statistics.
\<close>

definition fold_key :: "nat \<Rightarrow> scalar \<Rightarrow> ptr \<Rightarrow> row_state \<Rightarrow> row_state option" where
  "fold_key K si vi st =
     (let m_i = (if sgt si (m_prime st) then si else m_prime st);
          m_delta = sexp (ssub (m_prime st) m_i);
          s_delta = sexp (ssub si m_i)
      in case acc_loop vi m_delta s_delta [0..<K] (buf st) of
           None \<Rightarrow> None
         | Some b \<Rightarrow>
             Some \<lparr>buf = b,
                   s_prime = sadd (smul (s_prime st) m_delta) s_delta,
                   m_prime = m_i\<rparr>)"

text \<open>
  The arguments of the two calls of \<^verbatim>\<open>std::exp\<close> at lines 55 and 56, for a key with raw
  score \<open>si\<close> folded into the statistics \<open>st\<close>.
\<close>

definition exp_args :: "scalar \<Rightarrow> row_state \<Rightarrow> scalar list" where
  "exp_args si st =
     (let m_i = (if sgt si (m_prime st) then si else m_prime st)
      in [ssub (m_prime st) m_i, ssub si m_i])"

text \<open>Lines 46 to 64: the loop over the keys \<open>l\<close> of batch \<open>i\<close>.\<close>

fun key_loop ::
  "accessor3 \<Rightarrow> accessor3 \<Rightarrow> nat \<Rightarrow> ptr \<Rightarrow> nat \<Rightarrow> nat list \<Rightarrow> row_state \<Rightarrow> row_state option" where
  "key_loop key val K aar i [] st = Some st"
| "key_loop key val K aar i (l # ls) st =
     (case dot_loop aar (row_ptr key i l) [0..<K] (Fin 0) of
        None \<Rightarrow> None
      | Some si \<Rightarrow>
          (case fold_key K si (row_ptr val i l) st of
             None \<Rightarrow> None
           | Some st' \<Rightarrow> key_loop key val K aar i ls st'))"

text \<open>
  Lines 42 to 64 for query row \<open>j\<close> of batch \<open>i\<close>: the statistics at the moment the
  output row is written.
\<close>

definition row_final :: "accessor3 \<Rightarrow> accessor3 \<Rightarrow> accessor3 \<Rightarrow> nat \<Rightarrow> nat \<Rightarrow> row_state option" where
  "row_final query key val i j =
     (let K = size2 query; N = size1 key
      in key_loop key val K (row_ptr query i j) i [0..<N]
           \<lparr>buf = fill_zero K, s_prime = Fin 0, m_prime = NInf\<rparr>)"

text \<open>Lines 65 to 68: \<^verbatim>\<open>oo[k] = buf[k] / s_prime\<close>, the row written to the output.\<close>

definition write_row :: "nat \<Rightarrow> row_state \<Rightarrow> scalar list" where
  "write_row K st = map (\<lambda>k. sdiv (buf st ! k) (s_prime st)) [0..<K]"

definition attend_row :: "accessor3 \<Rightarrow> accessor3 \<Rightarrow> accessor3 \<Rightarrow> nat \<Rightarrow> nat \<Rightarrow> scalar list option" where
  "attend_row query key val i j =
     (case row_final query key val i j of
        None \<Rightarrow> None
      | Some st \<Rightarrow> Some (write_row (size2 query) st))"

text \<open>
  The loops over the batches \<open>i\<close> and the query rows \<open>j\<close>. Every row starts from a
  zeroed scratch row and writes an output row of its own, so the rows are independent
  and the parallel loop over the batches computes what the sequential one does. The
  accessors \<^verbatim>\<open>output\<close> and \<^verbatim>\<open>buffer\<close> of the source are the output and the scratch
  rows that \<^verbatim>\<open>attention\<close> has just allocated for this call, of shapes \<open>(B, M, K)\<close>
  and \<open>(threads, 1, K)\<close>; the embedding returns what the kernel writes to
  \<^verbatim>\<open>output\<close>: its storage, rows in the order of \<open>(i, j)\<close>.
\<close>

fun rows_loop :: "accessor3 \<Rightarrow> accessor3 \<Rightarrow> accessor3 \<Rightarrow> (nat \<times> nat) list \<Rightarrow> scalar list option" where
  "rows_loop query key val [] = Some []"
| "rows_loop query key val ((i, j) # ijs) =
     (case attend_row query key val i j of
        None \<Rightarrow> None
      | Some r \<Rightarrow>
          (case rows_loop query key val ijs of
             None \<Rightarrow> None
           | Some rs \<Rightarrow> Some (r @ rs)))"

definition attention_kernel :: "accessor3 \<Rightarrow> accessor3 \<Rightarrow> accessor3 \<Rightarrow> scalar list option" where
  "attention_kernel query key val =
     rows_loop query key val (List.product [0..<size0 query] [0..<size1 query])"

text \<open>
  The running maximum and the normalizing sum of a row whose raw scores are finite:
  before the first key they are minus infinity and zero (\<open>stats_init\<close>); from the first
  key on the maximum is finite and the sum is finite and at least one (\<open>stats_run\<close>).
\<close>

definition stats_init :: "row_state \<Rightarrow> bool" where
  "stats_init st = (m_prime st = NInf \<and> s_prime st = Fin 0)"

definition stats_run :: "row_state \<Rightarrow> bool" where
  "stats_run st = (is_Fin (m_prime st) \<and> is_Fin (s_prime st) \<and> 1 \<le> fin_val (s_prime st))"

section \<open>The attention operator (cpu/attention.cpp)\<close>

text \<open>
  A failed \<^verbatim>\<open>TORCH_CHECK\<close> carries the line of the check. \<open>DispatchError\<close> is
  \<^verbatim>\<open>AT_DISPATCH_FLOATING_TYPES\<close> on an element type other than float and double;
  \<open>AccessorError\<close> is \<^verbatim>\<open>accessor<scalar_t, 3>()\<close> on a tensor whose rank is not 3 or
  whose element type is not \<^verbatim>\<open>scalar_t\<close>; \<open>OutOfBounds\<close> stands for the undefined
  behaviour of a kernel that reads outside a storage.
\<close>

datatype error = CheckFailed nat | DispatchError | AccessorError | OutOfBounds

definition accessor :: "dtype \<Rightarrow> scalar tensor \<Rightarrow> accessor3 option" where
  "accessor ty t =
     (if dim t = 3 \<and> scalar_type t = ty
      then Some \<lparr>size0 = sizes t ! 0, size1 = sizes t ! 1, size2 = sizes t ! 2,
                 mem = elems t\<rparr>
      else None)"

text \<open>
  The operator returns the shapes it has allocated with \<^verbatim>\<open>at::empty\<close> so far (the
  output first, the scratch buffer second) and its outcome. Output memory is written
  by the kernel only, so an outcome that is an error other than \<open>OutOfBounds\<close> has
  written none. \<open>num_threads\<close> is \<^verbatim>\<open>at::get_num_threads()\<close>. A size is read with
  \<open>!\<close> only after the rank has been checked.
\<close>

definition attention ::
  "nat \<Rightarrow> scalar tensor \<Rightarrow> scalar tensor \<Rightarrow> scalar tensor
     \<Rightarrow> nat list list \<times> (error + scalar tensor)" where
  "attention num_threads query key val =
     (if dim query \<noteq> dim key then ([], Inl (CheckFailed 80))
      else if dim query \<noteq> 3 then ([], Inl (CheckFailed 82))
      else if sizes query ! 2 \<noteq> sizes key ! 2 then ([], Inl (CheckFailed 83))
      else if sizes query ! 0 \<noteq> sizes key ! 0 then ([], Inl (CheckFailed 84))
      else if \<not> contiguous query then ([], Inl (CheckFailed 98))
      else if \<not> contiguous key then ([], Inl (CheckFailed 99))
      else if \<not> contiguous val then ([], Inl (CheckFailed 100))
      else
        let B = sizes query ! 0; M = sizes query ! 1; K = sizes query ! 2;
            allocated = [[B, M, K], [num_threads, 1, K]];
            ty = scalar_type query
        in if ty \<noteq> Float32 \<and> ty \<noteq> Float64 then (allocated, Inl DispatchError)
           else
             (case accessor ty query of
                None \<Rightarrow> (allocated, Inl AccessorError)
              | Some q \<Rightarrow>
                  (case accessor ty key of
                     None \<Rightarrow> (allocated, Inl AccessorError)
                   | Some k \<Rightarrow>
                       (case accessor ty val of
                          None \<Rightarrow> (allocated, Inl AccessorError)
                        | Some v \<Rightarrow>
                            (case attention_kernel q k v of
                               None \<Rightarrow> (allocated, Inl OutOfBounds)
                             | Some out \<Rightarrow>
                                 (allocated,
                                  Inr \<lparr>sizes = [B, M, K], contiguous = True,
                                       scalar_type = ty, elems = out\<rparr>))))))"

section \<open>The masked product (matmul.cpp)\<close>

text \<open>
  \<^verbatim>\<open>at::matmul\<close>, \<^verbatim>\<open>logical_not\<close> and \<^verbatim>\<open>masked_fill\<close> belong to the host
  library. The product is modelled on two matrices (rank 2) and on two batches of
  matrices with the same batch count (rank 3); \<^verbatim>\<open>masked_fill\<close> on a mask that has the
  shape of the tensor it fills. Outside these shapes the embedding gives \<open>None\<close>.
\<close>

text \<open>The product of an \<open>n \<times> k\<close> and a \<open>k \<times> m\<close> matrix, both in row-major order.\<close>

definition matmul2 :: "nat \<Rightarrow> nat \<Rightarrow> nat \<Rightarrow> scalar list \<Rightarrow> scalar list \<Rightarrow> scalar list" where
  "matmul2 n k m xs ys =
     concat (map (\<lambda>i. map (\<lambda>j.
        foldl sadd (Fin 0) (map (\<lambda>l. smul (xs ! (i * k + l)) (ys ! (l * m + j))) [0..<k]))
        [0..<m]) [0..<n])"

definition at_matmul :: "scalar tensor \<Rightarrow> scalar tensor \<Rightarrow> scalar tensor option" where
  "at_matmul a b =
     (case (sizes a, sizes b) of
        ([n, k], [k', m]) \<Rightarrow>
          (if k = k' \<and> length (elems a) = n * k \<and> length (elems b) = k * m
           then Some \<lparr>sizes = [n, m], contiguous = True, scalar_type = scalar_type a,
                      elems = matmul2 n k m (elems a) (elems b)\<rparr>
           else None)
      | ([c, n, k], [c', k', m]) \<Rightarrow>
          (if c = c' \<and> k = k' \<and> length (elems a) = c * n * k
              \<and> length (elems b) = c * k * m
           then Some \<lparr>sizes = [c, n, m], contiguous = True, scalar_type = scalar_type a,
                      elems = concat (map (\<lambda>i.
                                matmul2 n k m (take (n * k) (drop (i * n * k) (elems a)))
                                  (take (k * m) (drop (i * k * m) (elems b))))
                                [0..<c])\<rparr>
           else None)
      | _ \<Rightarrow> None)"

definition logical_not :: "bool tensor \<Rightarrow> bool tensor" where
  "logical_not msk = msk\<lparr>elems := map Not (elems msk)\<rparr>"

definition masked_fill :: "scalar tensor \<Rightarrow> bool tensor \<Rightarrow> scalar \<Rightarrow> scalar tensor option" where
  "masked_fill t msk v =
     (if sizes msk = sizes t \<and> length (elems msk) = length (elems t)
      then Some (t\<lparr>elems := map (\<lambda>(x, c). if c then v else x) (zip (elems t) (elems msk))\<rparr>)
      else None)"

definition matmul_with_mask_kernel ::
  "scalar tensor \<Rightarrow> scalar tensor \<Rightarrow> bool tensor \<Rightarrow> scalar tensor option" where
  "matmul_with_mask_kernel a b msk =
     (case at_matmul a b of
        None \<Rightarrow> None
      | Some result \<Rightarrow> masked_fill result (logical_not msk) NInf)"

section \<open>The sparse product (cpu/spmm.cpp)\<close>

text \<open>A read at a C \<^verbatim>\<open>int\<close> index; a negative index is outside the array.\<close>

definition rdi :: "'a list \<Rightarrow> int \<Rightarrow> 'a option" where
  "rdi xs i = (if 0 \<le> i \<and> i < int (length xs) then Some (xs ! nat i) else None)"

text \<open>
  Lines 25 to 29: the loop over the nonzeros \<open>l\<close> of one row, for column \<open>j\<close> of batch
  \<open>b\<close>. The list argument holds the values of \<open>l\<close> still to run.
\<close>

fun spmm_inner ::
  "int \<Rightarrow> int \<Rightarrow> int \<Rightarrow> scalar list \<Rightarrow> int list \<Rightarrow> scalar list
     \<Rightarrow> int \<Rightarrow> int \<Rightarrow> int list \<Rightarrow> scalar \<Rightarrow> scalar option" where
  "spmm_inner k n nonzeros values column_indices dense_matrix b j [] accumulator =
     Some accumulator"
| "spmm_inner k n nonzeros values column_indices dense_matrix b j (l # ls) accumulator =
     (case rdi column_indices l of
        None \<Rightarrow> None
      | Some column_index \<Rightarrow>
          (case rdi values (b * nonzeros + l) of
             None \<Rightarrow> None
           | Some v \<Rightarrow>
               (case rdi dense_matrix (b * k * n + column_index * n + j) of
                  None \<Rightarrow> None
                | Some d \<Rightarrow>
                    spmm_inner k n nonzeros values column_indices dense_matrix b j ls
                      (sadd accumulator (smul v d)))))"

text \<open>
  Lines 24 to 30: one entry of the output. \<^verbatim>\<open>row_offsets[i]\<close> and
  \<^verbatim>\<open>row_offsets[i + 1]\<close> bound the loop.
\<close>

definition spmm_entry ::
  "int \<Rightarrow> int \<Rightarrow> int \<Rightarrow> scalar list \<Rightarrow> int list \<Rightarrow> int list \<Rightarrow> scalar list
     \<Rightarrow> int \<Rightarrow> int \<Rightarrow> int \<Rightarrow> scalar option" where
  "spmm_entry k n nonzeros values row_offsets column_indices dense_matrix b i j =
     (case rdi row_offsets i of
        None \<Rightarrow> None
      | Some lo \<Rightarrow>
          (case rdi row_offsets (i + 1) of
             None \<Rightarrow> None
           | Some hi \<Rightarrow>
               spmm_inner k n nonzeros values column_indices dense_matrix b j
                 [lo..hi - 1] (Fin 0)))"

text \<open>Sequencing of fallible steps, in order.\<close>

fun all_some :: "'a option list \<Rightarrow> 'a list option" where
  "all_some [] = Some []"
| "all_some (x # xs) =
     (case x of
        None \<Rightarrow> None
      | Some y \<Rightarrow> (case all_some xs of None \<Rightarrow> None | Some ys \<Rightarrow> Some (y # ys)))"

text \<open>
  \<^verbatim>\<open>LaunchSpmm\<close>: the entries are written at \<open>b * m * n + i * n + j\<close>, which is the
  order in which the three loops produce them. \<open>row_indices\<close> is a parameter of the
  function as in the source.
\<close>

definition LaunchSpmm ::
  "int \<Rightarrow> int \<Rightarrow> int \<Rightarrow> int \<Rightarrow> int list \<Rightarrow> scalar list \<Rightarrow> int list \<Rightarrow> int list
     \<Rightarrow> scalar list \<Rightarrow> int \<Rightarrow> scalar list option" where
  "LaunchSpmm m k n nonzeros row_indices values row_offsets column_indices dense_matrix
     batch_size =
     all_some
       (concat (map (\<lambda>b. concat (map (\<lambda>i. map (\<lambda>j.
          spmm_entry k n nonzeros values row_offsets column_indices dense_matrix b i j)
          [0..n - 1]) [0..m - 1])) [0..batch_size - 1]))"

datatype spmm_error = IndexError | NonzerosCheck | NegativeDimension | DataPtrError | SpmmOutOfBounds

text \<open>
  \<^verbatim>\<open>t.size(d)\<close> raises when \<open>d\<close> is not a dimension of \<open>t\<close>;
  \<^verbatim>\<open>t.data_ptr<T>()\<close> raises when the element type of \<open>t\<close> is not \<open>T\<close>;
  \<^verbatim>\<open>at::empty\<close> raises on a negative size.
\<close>

definition data_ptr :: "dtype \<Rightarrow> 'a tensor \<Rightarrow> 'a list option" where
  "data_ptr ty t = (if scalar_type t = ty then Some (elems t) else None)"

definition spmm_sputnik ::
  "scalar tensor \<Rightarrow> int tensor \<Rightarrow> scalar tensor \<Rightarrow> int tensor \<Rightarrow> int tensor \<Rightarrow> int
     \<Rightarrow> spmm_error + scalar tensor" where
  "spmm_sputnik b row_indices values row_offsets column_indices m =
     (if dim b < 3 \<or> dim column_indices < 1 then Inl IndexError
      else
        let batch = int (sizes b ! 0); k = int (sizes b ! 1); n = int (sizes b ! 2);
            nonzeros = int (sizes column_indices ! 0)
        in if \<not> (batch = 1 \<or> nonzeros mod 4 = 0) then Inl NonzerosCheck
           else if m < 0 then Inl NegativeDimension
           else
             (case (data_ptr Int32 row_indices, data_ptr Float32 values,
                    data_ptr Int32 row_offsets, data_ptr Int32 column_indices,
                    data_ptr Float32 b) of
                (Some ri, Some vs, Some ro, Some ci, Some dense) \<Rightarrow>
                  (case LaunchSpmm m k n nonzeros ri vs ro ci dense batch of
                     None \<Rightarrow> Inl SpmmOutOfBounds
                   | Some out \<Rightarrow>
                       Inr \<lparr>sizes = [nat batch, nat m, nat n], contiguous = True,
                            scalar_type = scalar_type b, elems = out\<rparr>)
              | _ \<Rightarrow> Inl DataPtrError))"

section \<open>Reading the tensors as real matrices\<close>

text \<open>
  The storage of an accessor has one entry per index triple, and all of them are finite.
\<close>

definition well_formed :: "accessor3 \<Rightarrow> bool" where
  "well_formed a = (length (mem a) = size0 a * size1 a * size2 a)"

definition all_finite :: "accessor3 \<Rightarrow> bool" where
  "all_finite a = list_all is_Fin (mem a)"

text \<open>The entry \<open>a[i][j][k]\<close> and the row \<open>a[i][j]\<close> as reals.\<close>

definition at3 :: "accessor3 \<Rightarrow> nat \<Rightarrow> nat \<Rightarrow> nat \<Rightarrow> real" where
  "at3 a i j k = fin_val (mem a ! ((i * size1 a + j) * size2 a + k))"

definition row3 :: "accessor3 \<Rightarrow> nat \<Rightarrow> nat \<Rightarrow> real list" where
  "row3 a i j = map (at3 a i j) [0..<size2 a]"

definition dot :: "real list \<Rightarrow> real list \<Rightarrow> real" where
  "dot q k = (\<Sum>(a, b)\<leftarrow>zip q k. a * b)"

text \<open>
  The shapes under which the kernel reads inside the three storages: Key has the batch
  count and the feature dimension of Query (the operator checks both), and Value has the
  batch count and the length of Key and the feature dimension of Query (the operator
  checks none of the three).
\<close>

definition kernel_shapes :: "accessor3 \<Rightarrow> accessor3 \<Rightarrow> accessor3 \<Rightarrow> bool" where
  "kernel_shapes query key val =
     (well_formed query \<and> well_formed key \<and> well_formed val
      \<and> size0 key = size0 query \<and> size2 key = size2 query
      \<and> size0 val = size0 query \<and> size1 val = size1 key \<and> size2 val = size2 query)"

text \<open>
  The dot products of query row \<open>j\<close> of batch \<open>i\<close> with every key, which the kernel
  folds as raw scores (lines 48 to 51; the score of the specification, \<open>spec_score\<close>
  below, is the dot product divided by \<open>sqrt K\<close>), and the rows of Value of that batch.
\<close>

definition kernel_scores :: "accessor3 \<Rightarrow> accessor3 \<Rightarrow> nat \<Rightarrow> nat \<Rightarrow> real list" where
  "kernel_scores query key i j = map (\<lambda>l. dot (row3 query i j) (row3 key i l)) [0..<size1 key]"

definition kernel_values :: "accessor3 \<Rightarrow> nat \<Rightarrow> real list list" where
  "kernel_values val i = map (\<lambda>l. row3 val i l) [0..<size1 val]"

text \<open>The first \<open>n\<close> keys of the row, each with its dot product and its Value row.\<close>

definition seen_upto ::
  "accessor3 \<Rightarrow> accessor3 \<Rightarrow> accessor3 \<Rightarrow> nat \<Rightarrow> nat \<Rightarrow> nat \<Rightarrow> (real \<times> real list) list" where
  "seen_upto query key val i j n =
     map (\<lambda>l. (dot (row3 query i j) (row3 key i l), row3 val i l)) [0..<n]"

section \<open>The accumulator of the specification\<close>

text \<open>The larger of two scalars, taken the way line 52 takes it.\<close>

definition score_max :: "scalar \<Rightarrow> scalar \<Rightarrow> scalar" where
  "score_max a b = (if sgt b a then b else a)"

text \<open>
  The invariant of the specification, section 4.1, over the keys seen so far (each a raw
  score with its Value row), read in the arithmetic of the kernel: \<open>m\<close> is the largest
  score seen (minus infinity before the first key), \<open>s = \<Sum> exp (score - m)\<close> and
  \<open>acc = \<Sum> exp (score - m) * value\<close>.
\<close>

definition seen_max :: "(scalar \<times> scalar list) list \<Rightarrow> scalar" where
  "seen_max seen = foldl score_max NInf (map fst seen)"

definition seen_sum :: "(scalar \<times> scalar list) list \<Rightarrow> scalar" where
  "seen_sum seen =
     foldl sadd (Fin 0) (map (\<lambda>p. sexp (ssub (fst p) (seen_max seen))) seen)"

definition seen_acc :: "(scalar \<times> scalar list) list \<Rightarrow> nat \<Rightarrow> scalar" where
  "seen_acc seen k =
     foldl sadd (Fin 0)
       (map (\<lambda>p. smul (sexp (ssub (fst p) (seen_max seen))) (snd p ! k)) seen)"

definition fold_inv :: "nat \<Rightarrow> (scalar \<times> scalar list) list \<Rightarrow> row_state \<Rightarrow> bool" where
  "fold_inv K seen st =
     (m_prime st = seen_max seen \<and> s_prime st = seen_sum seen
      \<and> buf st = map (seen_acc seen) [0..<K])"

text \<open>A raw score that is finite or minus infinity, the value that a mask writes.\<close>

fun maskable :: "scalar \<Rightarrow> bool" where
  "maskable (Fin x) = True"
| "maskable NInf = True"
| "maskable PInf = False"
| "maskable NaN = False"

text \<open>
  Modelled from the spec: \<open>fold_block\<close> of section 4.1, the fold of a whole block of
  raw scores and Value rows. The tiled kernel delegates it to
  \<^verbatim>\<open>ScalingCoefsUpdater::update\<close> and to the epilogue, whose sources are not in the
  repository's files. With \<open>m_i = max (m, max raw_scores)\<close> and
  \<open>correction = exp (m - m_i)\<close>, the weights are \<open>exp (raw_scores[j] - m_i)\<close>, the new
  sum is \<open>s * correction + \<Sum> weight\<close> and the new accumulator is
  \<open>acc * correction + \<Sum> weight * value_rows[j]\<close>. Every Value row has as many entries
  as the accumulator.
\<close>

definition fold_block :: "row_state \<Rightarrow> scalar list \<Rightarrow> scalar list list \<Rightarrow> row_state" where
  "fold_block st raw_scores value_rows =
     (let m_i = score_max (m_prime st) (foldl score_max NInf raw_scores);
          correction = sexp (ssub (m_prime st) m_i);
          weight = map (\<lambda>r. sexp (ssub r m_i)) raw_scores;
          s_i = sadd (smul (s_prime st) correction) (foldl sadd (Fin 0) weight);
          acc_i = map (\<lambda>k. sadd (smul (buf st ! k) correction)
                        (foldl sadd (Fin 0)
                           (map (\<lambda>(w, row). smul w (row ! k)) (zip weight value_rows))))
                    [0..<length (buf st)]
      in \<lparr>buf = acc_i, s_prime = s_i, m_prime = m_i\<rparr>)"

text \<open>
  On finite scores and finite Value rows the sums of the invariant are sums of reals:
  \<open>m\<close> is the largest score seen, \<open>s = \<Sum> exp (score - m)\<close> and
  \<open>acc = \<Sum> exp (score - m) * value\<close>. On at least one such key \<open>online_inv\<close> is
  \<open>fold_inv\<close> (lemma \<open>online_inv_fold_inv\<close>).
\<close>

definition top_score :: "(real \<times> real list) list \<Rightarrow> real" where
  "top_score seen = Max (set (map fst seen))"

definition wsum :: "real \<Rightarrow> (real \<times> real list) list \<Rightarrow> real" where
  "wsum M seen = (\<Sum>p\<leftarrow>seen. exp (fst p - M))"

definition wacc :: "real \<Rightarrow> (real \<times> real list) list \<Rightarrow> nat \<Rightarrow> real" where
  "wacc M seen k = (\<Sum>p\<leftarrow>seen. exp (fst p - M) * snd p ! k)"

definition online_inv :: "nat \<Rightarrow> (real \<times> real list) list \<Rightarrow> row_state \<Rightarrow> bool" where
  "online_inv K seen st =
     (m_prime st = (if seen = [] then NInf else Fin (top_score seen))
      \<and> s_prime st = Fin (wsum (top_score seen) seen)
      \<and> buf st = map (\<lambda>k. Fin (wacc (top_score seen) seen k)) [0..<K])"

section \<open>The textbook algorithm\<close>

text \<open>
  Softmax of a row of scores, and the sum of the Value rows weighted by a row of
  weights, on the first \<open>K\<close> features.
\<close>

definition softmax :: "real list \<Rightarrow> real list" where
  "softmax xs = map (\<lambda>x. exp x / (\<Sum>y\<leftarrow>xs. exp y)) xs"

definition weighted_sum :: "real list \<Rightarrow> real list list \<Rightarrow> nat \<Rightarrow> real list" where
  "weighted_sum ws rows K = map (\<lambda>k. \<Sum>(w, r)\<leftarrow>zip ws rows. w * r ! k) [0..<K]"

text \<open>
  The score of the specification, section 4.2: \<open>score(i,j) = (Query_i \<cdot> Key_j) / sqrt K\<close>.
\<close>

definition spec_score :: "real list \<Rightarrow> real list \<Rightarrow> real" where
  "spec_score q k = dot q k / sqrt (real (length q))"

text \<open>
  The textbook algorithm of the specification, section 8, for one query row: compute
  the full row of scores, subtract the row maximum, exponentiate, sum, divide, multiply
  by Value.
\<close>

definition textbook_row :: "real list \<Rightarrow> real list list \<Rightarrow> real list list \<Rightarrow> nat \<Rightarrow> real list" where
  "textbook_row q keys vals K =
     (let scores = map (spec_score q) keys;
          mx = Max (set scores);
          e = map (\<lambda>s. exp (s - mx)) scores;
          z = sum_list e;
          p = map (\<lambda>x. x / z) e
      in weighted_sum p vals K)"

section \<open>The tiled form\<close>

text \<open>
  Lines 311 to 316 of kernel_forward.h: the keys are walked in blocks of
  \<^verbatim>\<open>kKeysPerBlock\<close>, in ascending order, the last block holding the keys that remain.
  The static assertions of the kernel exclude the size 0, for which the embedding gives
  no block.
\<close>

function key_blocks :: "nat \<Rightarrow> 'a list \<Rightarrow> 'a list list" where
  "key_blocks kKeysPerBlock keys =
     (if kKeysPerBlock = 0 \<or> keys = [] then []
      else take kKeysPerBlock keys # key_blocks kKeysPerBlock (drop kKeysPerBlock keys))"
  by pat_completeness auto
termination
  by (relation "measure (\<lambda>(n, xs). length xs)") auto

text \<open>Line 423: the scale handed to \<^verbatim>\<open>ScalingCoefsUpdater::update\<close>.\<close>

definition updater_scale :: "nat \<Rightarrow> real" where
  "updater_scale head_dim = 1 / sqrt (real head_dim)"

text \<open>One entry of the product of the query block and the transposed key block.\<close>

definition sdot :: "scalar list \<Rightarrow> scalar list \<Rightarrow> scalar" where
  "sdot q k = foldl sadd (Fin 0) (map (\<lambda>(a, b). smul a b) (zip q k))"

text \<open>
  Modelled from the spec: the tiled form on one query row. The walk over the key blocks
  and the scale are those of kernel_forward.h; what the kernel does with a block
  (\<^verbatim>\<open>ScalingCoefsUpdater::update\<close>, the second product and the epilogue, whose sources
  are not in the repository's files) is \<open>fold_block\<close> on the scaled scores of the
  block, and the final row is \<open>acc / s\<close>, as sections 4.1 to 4.3 of the specification
  say. The rows of a query block do not depend on each other, so the size of the query
  block does not enter.
\<close>

definition tiled_row ::
  "nat \<Rightarrow> nat \<Rightarrow> scalar list \<Rightarrow> scalar list list \<Rightarrow> scalar list list \<Rightarrow> nat \<Rightarrow> scalar list" where
  "tiled_row kKeysPerBlock head_dim q keys vals head_dim_value =
     write_row head_dim_value
       (foldl (\<lambda>st blk.
                 fold_block st
                   (map (\<lambda>kv. smul (sdot q (fst kv)) (Fin (updater_scale head_dim))) blk)
                   (map snd blk))
          \<lparr>buf = fill_zero head_dim_value, s_prime = Fin 0, m_prime = NInf\<rparr>
          (key_blocks kKeysPerBlock (zip keys vals)))"

section \<open>Concrete inputs\<close>

text \<open>
  The scenario of the specification, section 8: one batch, two positions, two features,
  Query and Key the identity, Value \<open>[[1, 2], [3, 4]]\<close>.
\<close>

definition ex_q :: accessor3 where
  "ex_q = \<lparr>size0 = 1, size1 = 2, size2 = 2, mem = [Fin 1, Fin 0, Fin 0, Fin 1]\<rparr>"

definition ex_k :: accessor3 where
  "ex_k = \<lparr>size0 = 1, size1 = 2, size2 = 2, mem = [Fin 1, Fin 0, Fin 0, Fin 1]\<rparr>"

definition ex_v :: accessor3 where
  "ex_v = \<lparr>size0 = 1, size1 = 2, size2 = 2, mem = [Fin 1, Fin 2, Fin 3, Fin 4]\<rparr>"

text \<open>One query and two keys of four features; Value is Key.\<close>

definition ex4_q :: accessor3 where
  "ex4_q = \<lparr>size0 = 1, size1 = 1, size2 = 4, mem = [Fin 1, Fin 0, Fin 0, Fin 0]\<rparr>"

definition ex4_k :: accessor3 where
  "ex4_k = \<lparr>size0 = 1, size1 = 2, size2 = 4,
            mem = [Fin 1, Fin 0, Fin 0, Fin 0, Fin 0, Fin 0, Fin 0, Fin 0]\<rparr>"




text \<open>
  A Query (or Key) \<open>[1]\<close> of one feature, a Value row that holds plus infinity, and two
  keys \<open>[0]\<close> of one feature.
\<close>

definition one_q :: accessor3 where
  "one_q = \<lparr>size0 = 1, size1 = 1, size2 = 1, mem = [Fin 1]\<rparr>"

definition inf_v :: accessor3 where
  "inf_v = \<lparr>size0 = 1, size1 = 1, size2 = 1, mem = [PInf]\<rparr>"

definition zero_k :: accessor3 where
  "zero_k = \<lparr>size0 = 1, size1 = 2, size2 = 1, mem = [Fin 0, Fin 0]\<rparr>"

text \<open>
  Raw scores of the magnitude \<open>1e4\<close>: the query \<open>[10000]\<close> against the keys \<open>[1]\<close> and
  \<open>[2]\<close>, with the Value rows \<open>[1]\<close> and \<open>[3]\<close>.
\<close>

definition big_q :: accessor3 where
  "big_q = \<lparr>size0 = 1, size1 = 1, size2 = 1, mem = [Fin 10000]\<rparr>"

definition big_k :: accessor3 where
  "big_k = \<lparr>size0 = 1, size1 = 2, size2 = 1, mem = [Fin 1, Fin 2]\<rparr>"

definition big_v :: accessor3 where
  "big_v = \<lparr>size0 = 1, size1 = 2, size2 = 1, mem = [Fin 1, Fin 3]\<rparr>"

text \<open>
  Two keys \<open>[-inf]\<close> and \<open>[0]\<close> of one feature, with the Value rows \<open>[1]\<close> and \<open>[1]\<close>:
  against the query \<open>[1]\<close> the raw scores are \<open>-inf\<close> and \<open>0\<close>.
\<close>

definition masked_k :: accessor3 where
  "masked_k = \<lparr>size0 = 1, size1 = 2, size2 = 1, mem = [NInf, Fin 0]\<rparr>"

definition ones_v :: accessor3 where
  "ones_v = \<lparr>size0 = 1, size1 = 2, size2 = 1, mem = [Fin 1, Fin 1]\<rparr>"

text \<open>Tensors handed to the operator.\<close>

definition t_one :: "dtype \<Rightarrow> scalar tensor" where
  "t_one ty = \<lparr>sizes = [1, 1, 1], contiguous = True, scalar_type = ty, elems = [Fin 1]\<rparr>"

definition t_v12 :: "scalar tensor" where
  "t_v12 = \<lparr>sizes = [1, 1, 2], contiguous = True, scalar_type = Float32,
            elems = [Fin 1, Fin 2]\<rparr>"

definition t_strided :: "scalar tensor" where
  "t_strided = \<lparr>sizes = [1, 1, 1], contiguous = False, scalar_type = Float32,
               elems = [Fin 1, Fin 2]\<rparr>"

text \<open>
  The sparse scenario of the specification, section 8: the identity of size 2 in
  compressed rows, times a dense matrix of one batch.
\<close>

definition sp_dense :: "scalar tensor" where
  "sp_dense = \<lparr>sizes = [1, 2, 2], contiguous = True, scalar_type = Float32,
              elems = [Fin 1, Fin 2, Fin 3, Fin 4]\<rparr>"

definition sp_values :: "scalar tensor" where
  "sp_values = \<lparr>sizes = [1, 2], contiguous = True, scalar_type = Float32,
               elems = [Fin 1, Fin 1]\<rparr>"

definition sp_ints :: "int list \<Rightarrow> int tensor" where
  "sp_ints xs = \<lparr>sizes = [length xs], contiguous = True, scalar_type = Int32, elems = xs\<rparr>"

text \<open>A row vector times the identity, and a mask that keeps the first entry.\<close>

definition mm_a :: "scalar tensor" where
  "mm_a = \<lparr>sizes = [1, 2], contiguous = True, scalar_type = Float32,
           elems = [Fin 5, Fin 7]\<rparr>"

definition mm_b :: "scalar tensor" where
  "mm_b = \<lparr>sizes = [2, 2], contiguous = True, scalar_type = Float32,
           elems = [Fin 1, Fin 0, Fin 0, Fin 1]\<rparr>"

definition mm_mask :: "bool tensor" where
  "mm_mask = \<lparr>sizes = [1, 2], contiguous = True, scalar_type = Bool8, elems = [True, False]\<rparr>"

text \<open>The element types the operator computes on, shared by the three inputs.\<close>

definition supported_types :: "scalar tensor \<Rightarrow> scalar tensor \<Rightarrow> scalar tensor \<Rightarrow> bool" where
  "supported_types query key val =
     ((scalar_type query = Float32 \<or> scalar_type query = Float64)
      \<and> scalar_type key = scalar_type query \<and> scalar_type val = scalar_type query)"

section \<open>Lemmas\<close>

lemma idx3_bound:
  fixes i j k :: nat
  assumes "i < B" and "j < M" and "k < K"
  shows "(i * M + j) * K + k < B * M * K"
proof -
  have "i * M + j < i * M + M" using assms(2) by simp
  also have "\<dots> = Suc i * M" by simp
  also have "\<dots> \<le> B * M" using assms(1) by (intro mult_le_mono1) simp
  finally have r: "Suc (i * M + j) \<le> B * M" by simp
  have "(i * M + j) * K + k < (i * M + j) * K + K" using assms(3) by simp
  also have "\<dots> = Suc (i * M + j) * K" by simp
  also have "\<dots> \<le> (B * M) * K" using r by (intro mult_le_mono1)
  finally show ?thesis by simp
qed

lemma is_Fin_conv: "is_Fin x \<longleftrightarrow> x = Fin (fin_val x)"
  by (cases x) simp_all

lemma ld_row:
  assumes "well_formed a" and "all_finite a" and "i < size0 a" and "j < size1 a" and "k < size2 a"
  shows "ld (row_ptr a i j) k = Some (Fin (at3 a i j k))"
proof -
  have b: "(i * size1 a + j) * size2 a + k < length (mem a)"
    using assms(1) idx3_bound[OF assms(3,4,5)] by (simp add: well_formed_def)
  then have "mem a ! ((i * size1 a + j) * size2 a + k) \<in> set (mem a)" by simp
  then have "is_Fin (mem a ! ((i * size1 a + j) * size2 a + k))"
    using assms(2) by (simp add: all_finite_def list_all_iff)
  then show ?thesis
    using b is_Fin_conv by (simp add: ld_def row_ptr_def rd_def at3_def)
qed

lemma ld_row_in:
  assumes "well_formed a" and "i < size0 a" and "j < size1 a" and "k < size2 a"
  shows "\<exists>x. ld (row_ptr a i j) k = Some x"
  using assms(1) idx3_bound[OF assms(2,3,4)] by (simp add: well_formed_def ld_def row_ptr_def rd_def)

lemma dot_loop_fin:
  assumes "\<forall>k\<in>set ks. ld aar k = Some (Fin (a k)) \<and> ld bar k = Some (Fin (b k))"
  shows "dot_loop aar bar ks (Fin s) = Some (Fin (s + (\<Sum>k\<leftarrow>ks. a k * b k)))"
  using assms by (induction ks arbitrary: s) (simp_all add: add.assoc)

lemma dot_upt: "length q = K \<Longrightarrow> length k = K \<Longrightarrow> (\<Sum>x\<leftarrow>[0..<K]. q ! x * k ! x) = dot q k"
proof -
  assume h: "length q = K" "length k = K"
  have "zip q k = map (\<lambda>x. (q ! x, k ! x)) [0..<K]"
    using h by (intro nth_equalityI) simp_all
  then show ?thesis by (simp add: dot_def comp_def)
qed

lemma acc_loop_result:
  assumes "distinct ks" and "\<forall>k\<in>set ks. k < length b \<and> ld vi k = Some (v k)"
  shows "\<exists>b'. acc_loop vi md sd ks b = Some b' \<and> length b' = length b
           \<and> (\<forall>k<length b. b' ! k =
                 (if k \<in> set ks then sadd (smul (b ! k) md) (smul (v k) sd) else b ! k))"
  using assms
proof (induction ks arbitrary: b)
  case Nil
  then show ?case by simp
next
  case (Cons k ks)
  let ?b1 = "b[k := sadd (smul (b ! k) md) (smul (v k) sd)]"
  have d: "distinct ks" and nk: "k \<notin> set ks" using Cons.prems(1) by simp_all
  have "\<forall>x\<in>set ks. x < length ?b1 \<and> ld vi x = Some (v x)" using Cons.prems(2) by simp
  from Cons.IH[OF d this] obtain b' where
    r: "acc_loop vi md sd ks ?b1 = Some b'" "length b' = length ?b1"
       "\<forall>x<length ?b1. b' ! x =
          (if x \<in> set ks then sadd (smul (?b1 ! x) md) (smul (v x) sd) else ?b1 ! x)"
    by blast
  have e: "acc_loop vi md sd (k # ks) b = Some b'"
    using Cons.prems(2) r(1) by simp
  have "\<forall>x<length b. b' ! x =
          (if x \<in> set (k # ks) then sadd (smul (b ! x) md) (smul (v x) sd) else b ! x)"
  proof (intro allI impI)
    fix x assume x: "x < length b"
    show "b' ! x = (if x \<in> set (k # ks) then sadd (smul (b ! x) md) (smul (v x) sd) else b ! x)"
    proof (cases "x = k")
      case True
      then show ?thesis using r(3) x nk by simp
    next
      case False
      then show ?thesis using r(3) x by simp
    qed
  qed
  then show ?case using e r(2) by simp
qed

lemma acc_loop_upt:
  assumes "length b = K" and "\<forall>k<K. ld vi k = Some (v k)"
  shows "acc_loop vi md sd [0..<K] b
         = Some (map (\<lambda>k. sadd (smul (b ! k) md) (smul (v k) sd)) [0..<K])"
proof -
  from acc_loop_result[of "[0..<K]" b vi v md sd] assms obtain b' where
    r: "acc_loop vi md sd [0..<K] b = Some b'" "length b' = length b"
       "\<forall>k<length b. b' ! k = (if k \<in> set [0..<K] then sadd (smul (b ! k) md) (smul (v k) sd) else b ! k)"
    by auto
  have "b' = map (\<lambda>k. sadd (smul (b ! k) md) (smul (v k) sd)) [0..<K]"
    using r(2,3) assms(1) by (intro nth_equalityI) simp_all
  then show ?thesis using r(1) by simp
qed

lemma wsum_rescale: "wsum M' seen = wsum M seen * exp (M - M')"
  by (induction seen) (simp_all add: wsum_def exp_diff field_simps)

lemma wacc_rescale: "wacc M' seen k = wacc M seen k * exp (M - M')"
  by (induction seen) (simp_all add: wacc_def exp_diff field_simps)

lemma wsum_append: "wsum M (a @ b) = wsum M a + wsum M b"
  by (simp add: wsum_def)

lemma wacc_append: "wacc M (a @ b) k = wacc M a k + wacc M b k"
  by (simp add: wacc_def)

lemma score_max_Fin: "score_max (Fin a) (Fin b) = Fin (max a b)"
  by (simp add: score_max_def max_def)

lemma foldl_score_max_Fin: "foldl score_max (Fin a) (map Fin xs) = Fin (fold max xs a)"
  by (induction xs arbitrary: a) (simp_all add: score_max_Fin max.commute)

lemma block_max: "xs \<noteq> [] \<Longrightarrow> foldl score_max NInf (map Fin xs) = Fin (Max (set xs))"
proof (cases xs)
  case Nil
  assume "xs \<noteq> []" with Nil show ?thesis by simp
next
  case (Cons x ys)
  have "score_max NInf (Fin x) = Fin x" by (simp add: score_max_def)
  then show ?thesis using Cons Max.set_eq_fold[of x ys] by (simp add: foldl_score_max_Fin)
qed

lemma foldl_sadd_Fin: "foldl sadd (Fin a) (map (\<lambda>x. Fin (f x)) xs) = Fin (a + (\<Sum>x\<leftarrow>xs. f x))"
  by (induction xs arbitrary: a) (simp_all add: add.assoc)

lemma top_score_append:
  "seen \<noteq> [] \<Longrightarrow> block \<noteq> [] \<Longrightarrow>
     top_score (seen @ block) = max (top_score seen) (top_score block)"
  by (simp add: top_score_def Max_Un)

lemma fold_block_inv:
  assumes inv: "online_inv K seen st"
    and ne: "block \<noteq> []"
    and len: "\<forall>p\<in>set block. length (snd p) = K"
  shows "online_inv K (seen @ block)
           (fold_block st (map (Fin \<circ> fst) block) (map (map Fin \<circ> snd) block))"
proof -
  let ?M = "top_score seen" and ?Mb = "top_score block" and ?M' = "top_score (seen @ block)"
  define c where "c = (if seen = [] then 0 else exp (?M - ?M'))"
  have bm: "foldl score_max NInf (map (Fin \<circ> fst) block) = Fin ?Mb"
    using block_max[of "map fst block"] ne by (simp add: top_score_def)
  have mi: "score_max (m_prime st) (Fin ?Mb) = Fin ?M'"
  proof (cases "seen = []")
    case True
    then show ?thesis using inv by (simp add: online_inv_def score_max_def)
  next
    case False
    then show ?thesis using inv ne by (simp add: online_inv_def score_max_Fin top_score_append)
  qed
  have corr: "sexp (ssub (m_prime st) (Fin ?M')) = Fin c"
    using inv by (simp add: online_inv_def c_def ssub_def)
  have ws: "wsum ?M' seen = wsum ?M seen * c"
  proof (cases "seen = []")
    case True then show ?thesis by (simp add: wsum_def)
  next
    case False then show ?thesis using wsum_rescale[of ?M' seen ?M] by (simp add: c_def)
  qed
  have wa: "\<And>k. wacc ?M' seen k = wacc ?M seen k * c"
  proof -
    fix k show "wacc ?M' seen k = wacc ?M seen k * c"
    proof (cases "seen = []")
      case True then show ?thesis by (simp add: wacc_def)
    next
      case False then show ?thesis using wacc_rescale[of ?M' seen k ?M] by (simp add: c_def)
    qed
  qed
  have weight: "map (\<lambda>r. sexp (ssub r (Fin ?M'))) (map (Fin \<circ> fst) block)
                = map (\<lambda>p. Fin (exp (fst p - ?M'))) block"
    by (simp add: ssub_def)
  have s: "sadd (smul (s_prime st) (Fin c))
             (foldl sadd (Fin 0) (map (\<lambda>p. Fin (exp (fst p - ?M'))) block))
           = Fin (wsum ?M' (seen @ block))"
    using inv
    by (simp add: foldl_sadd_Fin online_inv_def wsum_append ws) (simp add: wsum_def)
  have lenb: "length (buf st) = K" using inv by (simp add: online_inv_def)
  have a: "\<And>k. k < K \<Longrightarrow>
             sadd (smul (buf st ! k) (Fin c))
               (foldl sadd (Fin 0)
                  (map (\<lambda>(w, row). smul w (row ! k))
                     (zip (map (\<lambda>p. Fin (exp (fst p - ?M'))) block)
                          (map (map Fin \<circ> snd) block))))
             = Fin (wacc ?M' (seen @ block) k)"
  proof -
    fix k assume k: "k < K"
    have "map (\<lambda>(w, row). smul w (row ! k))
            (zip (map (\<lambda>p. Fin (exp (fst p - ?M'))) block) (map (map Fin \<circ> snd) block))
          = map (\<lambda>p. Fin (exp (fst p - ?M') * snd p ! k)) block"
      using len k by (auto simp: zip_map_map zip_same_conv_map)
    moreover have "buf st ! k = Fin (wacc ?M seen k)"
      using inv k by (simp add: online_inv_def)
    ultimately show "sadd (smul (buf st ! k) (Fin c))
               (foldl sadd (Fin 0)
                  (map (\<lambda>(w, row). smul w (row ! k))
                     (zip (map (\<lambda>p. Fin (exp (fst p - ?M'))) block)
                          (map (map Fin \<circ> snd) block))))
             = Fin (wacc ?M' (seen @ block) k)"
      by (simp add: foldl_sadd_Fin wacc_append wa) (simp add: wacc_def)
  qed
  show ?thesis
    unfolding online_inv_def fold_block_def Let_def bm mi corr weight s
    using ne a lenb by simp
qed

lemma sadd_zero_left: "sadd (Fin 0) w = w"
  by (cases w) simp_all

lemma smul_commute: "smul a b = smul b a"
  by (cases a; cases b) (simp_all add: mult.commute)

lemma score_max_single: "score_max m (score_max NInf si) = (if sgt si m then si else m)"
  by (cases si; cases m) (simp_all add: score_max_def)

lemma fold_key_eq_fold_block:
  assumes "length (buf st) = K" and "length v = K" and "\<forall>k<K. ld vi k = Some (v ! k)"
  shows "fold_key K si vi st = Some (fold_block st [si] [v])"
proof -
  have "acc_loop vi md sd [0..<K] (buf st)
         = Some (map (\<lambda>k. sadd (smul (buf st ! k) md) (smul (v ! k) sd)) [0..<K])" for md sd
    using acc_loop_upt[of "buf st" K vi "\<lambda>k. v ! k" md sd] assms by simp
  then show ?thesis
    using assms(1)
    by (simp add: fold_key_def fold_block_def Let_def score_max_single sadd_zero_left
          smul_commute)
qed

lemma key_loop_snoc:
  "key_loop key val K aar i (ls @ [l]) st =
     (case key_loop key val K aar i ls st of
        None \<Rightarrow> None
      | Some st' \<Rightarrow> key_loop key val K aar i [l] st')"
  by (induction ls arbitrary: st) (simp_all split: option.splits)

lemma dot_loop_rows:
  assumes "well_formed query" and "all_finite query" and "well_formed key" and "all_finite key"
    and "size2 key = size2 query"
    and "i < size0 query" and "j < size1 query" and "i' < size0 key" and "l < size1 key"
  shows "dot_loop (row_ptr query i j) (row_ptr key i' l) [0..<size2 query] (Fin 0)
         = Some (Fin (dot (row3 query i j) (row3 key i' l)))"
proof -
  let ?K = "size2 query"
  have "\<forall>k\<in>set [0..<?K]. ld (row_ptr query i j) k = Some (Fin (at3 query i j k))
            \<and> ld (row_ptr key i' l) k = Some (Fin (at3 key i' l k))"
    using assms by (simp add: ld_row)
  from dot_loop_fin[OF this, of 0]
  have "dot_loop (row_ptr query i j) (row_ptr key i' l) [0..<?K] (Fin 0)
        = Some (Fin (\<Sum>k\<leftarrow>[0..<?K]. at3 query i j k * at3 key i' l k))" by simp
  moreover have "(\<Sum>k\<leftarrow>[0..<?K]. at3 query i j k * at3 key i' l k)
        = (\<Sum>k\<leftarrow>[0..<?K]. row3 query i j ! k * row3 key i' l ! k)"
    using assms(5) by (intro arg_cong[where f = sum_list] map_cong refl) (simp add: row3_def)
  moreover have "\<dots> = dot (row3 query i j) (row3 key i' l)"
    using assms(5) by (intro dot_upt) (simp_all add: row3_def)
  ultimately show ?thesis by simp
qed

lemma online_inv_init: "online_inv K [] \<lparr>buf = fill_zero K, s_prime = Fin 0, m_prime = NInf\<rparr>"
  by (auto simp: online_inv_def fill_zero_def wsum_def wacc_def intro: nth_equalityI)

lemma key_loop_inv:
  assumes sh: "kernel_shapes query key val"
    and fin: "all_finite query" "all_finite key" "all_finite val"
    and i: "i < size0 query" and j: "j < size1 query" and n: "n \<le> size1 key"
  shows "\<exists>st. key_loop key val (size2 query) (row_ptr query i j) i [0..<n]
                 \<lparr>buf = fill_zero (size2 query), s_prime = Fin 0, m_prime = NInf\<rparr> = Some st
              \<and> online_inv (size2 query) (seen_upto query key val i j n) st"
  using n
proof (induction n)
  case 0
  show ?case using online_inv_init by (simp add: seen_upto_def)
next
  case (Suc n)
  let ?K = "size2 query"
  from Suc obtain st where
    st: "key_loop key val ?K (row_ptr query i j) i [0..<n]
           \<lparr>buf = fill_zero ?K, s_prime = Fin 0, m_prime = NInf\<rparr> = Some st"
    and inv: "online_inv ?K (seen_upto query key val i j n) st" by auto
  have n: "n < size1 key" using Suc.prems by simp
  let ?x = "dot (row3 query i j) (row3 key i n)" and ?v = "row3 val i n"
  have d: "dot_loop (row_ptr query i j) (row_ptr key i n) [0..<?K] (Fin 0) = Some (Fin ?x)"
    using sh fin i j n by (intro dot_loop_rows) (simp_all add: kernel_shapes_def)
  have lenb: "length (buf st) = ?K" using inv by (simp add: online_inv_def)
  have lenv: "length ?v = ?K" using sh by (simp add: row3_def kernel_shapes_def)
  have rd: "\<forall>k<?K. ld (row_ptr val i n) k = Some (map Fin ?v ! k)"
    using sh fin i n by (simp add: kernel_shapes_def ld_row row3_def)
  have f: "fold_key ?K (Fin ?x) (row_ptr val i n) st = Some (fold_block st [Fin ?x] [map Fin ?v])"
    using lenb lenv rd by (intro fold_key_eq_fold_block) simp_all
  have "online_inv ?K (seen_upto query key val i j n @ [(?x, ?v)])
          (fold_block st (map (Fin \<circ> fst) [(?x, ?v)]) (map (map Fin \<circ> snd) [(?x, ?v)]))"
    using inv lenv by (intro fold_block_inv) simp_all
  then have "online_inv ?K (seen_upto query key val i j (Suc n)) (fold_block st [Fin ?x] [map Fin ?v])"
    by (simp add: seen_upto_def)
  moreover have "key_loop key val ?K (row_ptr query i j) i [0..<Suc n]
           \<lparr>buf = fill_zero ?K, s_prime = Fin 0, m_prime = NInf\<rparr>
         = Some (fold_block st [Fin ?x] [map Fin ?v])"
    using st d f by (simp add: key_loop_snoc)
  ultimately show ?case by blast
qed

lemma wsum_nonneg: "0 \<le> wsum M seen"
  by (induction seen) (simp_all add: wsum_def)

lemma wsum_pos: "seen \<noteq> [] \<Longrightarrow> 0 < wsum M seen"
proof (cases seen)
  case Nil
  assume "seen \<noteq> []" with Nil show ?thesis by simp
next
  case (Cons p ps)
  have "0 < exp (fst p - M)" by simp
  moreover have "0 \<le> wsum M ps" by (rule wsum_nonneg)
  ultimately have "0 < exp (fst p - M) + wsum M ps" by linarith
  then show ?thesis using Cons by (simp add: wsum_def)
qed

lemma softmax_ratio:
  assumes "seen \<noteq> []"
  shows "wacc M seen k / wsum M seen
         = (\<Sum>(w, r)\<leftarrow>zip (softmax (map fst seen)) (map snd seen). w * r ! k)"
proof -
  let ?Z = "wsum 0 seen"
  have z: "0 < ?Z" using assms by (rule wsum_pos)
  have "wacc M seen k / wsum M seen = (wacc 0 seen k * exp (0 - M)) / (?Z * exp (0 - M))"
    using wacc_rescale[of M seen k 0] wsum_rescale[of M seen 0] by simp
  also have "\<dots> = wacc 0 seen k / ?Z" by simp
  also have "\<dots> = (\<Sum>p\<leftarrow>seen. exp (fst p) * snd p ! k) / ?Z" by (simp add: wacc_def)
  also have "\<dots> = (\<Sum>p\<leftarrow>seen. exp (fst p) * snd p ! k) * (1 / ?Z)" by simp
  also have "\<dots> = (\<Sum>p\<leftarrow>seen. exp (fst p) * snd p ! k * (1 / ?Z))"
    by (rule sum_list_mult_const[symmetric])
  also have "\<dots> = (\<Sum>p\<leftarrow>seen. exp (fst p) / ?Z * snd p ! k)"
    by (intro arg_cong[where f = sum_list] map_cong refl) simp
  also have "\<dots> = (\<Sum>(w, r)\<leftarrow>zip (softmax (map fst seen)) (map snd seen). w * r ! k)"
    by (simp add: softmax_def zip_map_map zip_same_conv_map wsum_def comp_def)
  finally show ?thesis .
qed

lemma seen_upto_scores:
  "size1 val = size1 key \<Longrightarrow>
   seen_upto query key val i j (size1 key) = zip (kernel_scores query key i j) (kernel_values val i)"
  by (simp add: seen_upto_def kernel_scores_def kernel_values_def zip_map_map zip_same_conv_map)

lemma map_fst_seen: "map fst (seen_upto query key val i j (size1 key)) = kernel_scores query key i j"
  by (simp add: seen_upto_def kernel_scores_def comp_def)

lemma map_snd_seen:
  "size1 val = size1 key \<Longrightarrow> map snd (seen_upto query key val i j (size1 key)) = kernel_values val i"
  by (simp add: seen_upto_def kernel_values_def comp_def)

lemma write_row_inv:
  assumes "online_inv K seen st" and "seen \<noteq> []"
  shows "write_row K st
         = map Fin (weighted_sum (softmax (map fst seen)) (map snd seen) K)"
proof -
  have "0 < wsum (top_score seen) seen" using assms(2) by (rule wsum_pos)
  then have "sdiv (buf st ! k) (s_prime st)
             = Fin (wacc (top_score seen) seen k / wsum (top_score seen) seen)" if "k < K" for k
    using assms(1) that by (simp add: online_inv_def)
  then show ?thesis
    using assms(2) by (simp add: write_row_def weighted_sum_def softmax_ratio)
qed



lemma one_plus_exp_nz: "1 + exp (x::real) \<noteq> 0"
  using exp_gt_zero[of x] by linarith

lemma fold_key_exp_args:
  "fold_key K si vi st =
     (case acc_loop vi (sexp (exp_args si st ! 0)) (sexp (exp_args si st ! 1)) [0..<K] (buf st) of
        None \<Rightarrow> None
      | Some b \<Rightarrow>
          Some \<lparr>buf = b,
                s_prime = sadd (smul (s_prime st) (sexp (exp_args si st ! 0)))
                            (sexp (exp_args si st ! 1)),
                m_prime = (if sgt si (m_prime st) then si else m_prime st)\<rparr>)"
  by (cases "sgt si (m_prime st)")
    (simp_all add: fold_key_def exp_args_def Let_def split: option.splits)

lemma fold_blocks_inv:
  assumes "online_inv K seen st"
    and "\<forall>b\<in>set blocks. b \<noteq> [] \<and> (\<forall>p\<in>set b. length (snd p) = K)"
  shows "online_inv K (seen @ concat blocks)
           (foldl (\<lambda>s b. fold_block s (map (Fin \<circ> fst) b) (map (map Fin \<circ> snd) b)) st blocks)"
  using assms
proof (induction blocks arbitrary: seen st)
  case Nil
  then show ?case by simp
next
  case (Cons b blocks)
  have "online_inv K (seen @ b) (fold_block st (map (Fin \<circ> fst) b) (map (map Fin \<circ> snd) b))"
    using Cons.prems by (intro fold_block_inv) simp_all
  from Cons.IH[OF this] Cons.prems(2) show ?case by (simp add: comp_def)
qed

declare key_blocks.simps [simp del]

lemma key_blocks_concat: "0 < n \<Longrightarrow> concat (key_blocks n xs) = xs"
proof (induction n xs rule: key_blocks.induct)
  case (1 n xs)
  show ?case
  proof (cases "xs = []")
    case True
    then show ?thesis by (simp add: key_blocks.simps)
  next
    case False
    then show ?thesis using 1 by (subst key_blocks.simps) simp
  qed
qed

lemma key_blocks_nonempty: "b \<in> set (key_blocks n xs) \<Longrightarrow> b \<noteq> []"
proof (induction n xs rule: key_blocks.induct)
  case (1 n xs)
  show ?case
  proof (cases "n = 0 \<or> xs = []")
    case True
    then show ?thesis using 1(2) by (simp add: key_blocks.simps)
  next
    case False
    then have "b = take n xs \<or> b \<in> set (key_blocks n (drop n xs))"
      using 1(2) by (subst (asm) key_blocks.simps) simp
    then show ?thesis using 1(1) False by auto
  qed
qed

lemma key_blocks_subset: "b \<in> set (key_blocks n xs) \<Longrightarrow> set b \<subseteq> set xs"
proof (induction n xs rule: key_blocks.induct)
  case (1 n xs)
  show ?case
  proof (cases "n = 0 \<or> xs = []")
    case True
    then show ?thesis using 1(2) by (simp add: key_blocks.simps)
  next
    case False
    then have "b = take n xs \<or> b \<in> set (key_blocks n (drop n xs))"
      using 1(2) by (subst (asm) key_blocks.simps) simp
    then show ?thesis
    proof
      assume "b = take n xs"
      then show ?thesis by (simp add: set_take_subset)
    next
      assume "b \<in> set (key_blocks n (drop n xs))"
      then have "set b \<subseteq> set (drop n xs)" using 1(1) False by simp
      then show ?thesis using set_drop_subset[of n xs] by blast
    qed
  qed
qed

lemma key_blocks_map: "key_blocks n (map f xs) = map (map f) (key_blocks n xs)"
proof (induction n xs rule: key_blocks.induct)
  case (1 n xs)
  show ?case
  proof (cases "n = 0 \<or> xs = []")
    case True
    then show ?thesis by (auto simp: key_blocks.simps)
  next
    case False
    then show ?thesis
      using 1 by (subst key_blocks.simps, subst (2) key_blocks.simps) (simp add: take_map drop_map)
  qed
qed

lemma sdot_Fin: "sdot (map Fin q) (map Fin k) = Fin (dot q k)"
proof -
  have "map (\<lambda>(a, b). smul a b) (zip (map Fin q) (map Fin k))
        = map (\<lambda>p. Fin (fst p * snd p)) (zip q k)"
    by (simp add: zip_map_map case_prod_beta)
  moreover have "(\<Sum>p\<leftarrow>zip q k. fst p * snd p) = dot q k"
    unfolding dot_def by (intro arg_cong[where f = sum_list] map_cong refl) auto
  ultimately show ?thesis by (simp add: sdot_def foldl_sadd_Fin)
qed

lemma textbook_weights:
  assumes "scores \<noteq> []"
  shows "map (\<lambda>x. x / (\<Sum>s\<leftarrow>scores. exp (s - M))) (map (\<lambda>s. exp (s - M)) scores)
         = softmax scores"
proof -
  have z: "(\<Sum>s\<leftarrow>scores. exp (s - M)) = (\<Sum>s\<leftarrow>scores. exp s) * exp (- M)"
    by (induction scores) (simp_all add: exp_diff exp_minus field_simps)
  have "exp (x - M) / ((\<Sum>s\<leftarrow>scores. exp s) * exp (- M)) = exp x / (\<Sum>s\<leftarrow>scores. exp s)" for x
    by (simp add: exp_diff exp_minus field_simps)
  then show ?thesis by (simp add: softmax_def z)
qed

lemma tiled_row_textbook:
  assumes bk: "0 < kKeysPerBlock" and ne: "keys \<noteq> []" and len: "length vals = length keys"
    and lv: "\<forall>v\<in>set vals. length v = Kv"
  shows "tiled_row kKeysPerBlock (length q) (map Fin q) (map (map Fin) keys) (map (map Fin) vals) Kv
         = map Fin (textbook_row q keys vals Kv)"
proof -
  let ?init = "\<lparr>buf = fill_zero Kv, s_prime = Fin 0, m_prime = NInf\<rparr>"
  let ?lift = "\<lambda>kv. (map Fin (fst kv), map Fin (snd kv))"
  let ?sc = "\<lambda>kv::real list \<times> real list. (spec_score q (fst kv), snd kv)"
  let ?step = "\<lambda>st blk. fold_block st
                   (map (\<lambda>kv. smul (sdot (map Fin q) (fst kv)) (Fin (updater_scale (length q)))) blk)
                   (map snd blk)"
  let ?rstep = "\<lambda>s b. fold_block s (map (Fin \<circ> fst) b) (map (map Fin \<circ> snd) b)"
  let ?blocks = "key_blocks kKeysPerBlock (zip keys vals)"
  have z: "zip (map (map Fin) keys) (map (map Fin) vals) = map ?lift (zip keys vals)"
    by (simp add: zip_map_map case_prod_beta)
  have st: "?step st (map ?lift b) = ?rstep st (map ?sc b)" for st b
    by (simp add: comp_def sdot_Fin spec_score_def updater_scale_def)
  have f: "foldl ?step st (map (map ?lift) bs) = foldl ?rstep st (map (map ?sc) bs)" for st bs
    by (induction bs arbitrary: st) (simp_all only: list.map foldl.simps st)
  have rb: "\<forall>b\<in>set (map (map ?sc) ?blocks). b \<noteq> [] \<and> (\<forall>p\<in>set b. length (snd p) = Kv)"
  proof (intro ballI conjI)
    fix b assume b: "b \<in> set (map (map ?sc) ?blocks)"
    then obtain b' where b': "b' \<in> set ?blocks" "b = map ?sc b'" by auto
    show "b \<noteq> []" using key_blocks_nonempty[OF b'(1)] b'(2) by simp
    fix p assume "p \<in> set b"
    then obtain kv where kv: "kv \<in> set b'" "p = ?sc kv" using b'(2) by auto
    then have "kv \<in> set (zip keys vals)" using key_blocks_subset[OF b'(1)] by blast
    then have "snd kv \<in> set vals" by (metis in_set_zipE prod.collapse)
    then show "length (snd p) = Kv" using lv kv(2) by simp
  qed
  have inv: "online_inv Kv ([] @ concat (map (map ?sc) ?blocks))
               (foldl ?rstep ?init (map (map ?sc) ?blocks))"
    using online_inv_init rb by (rule fold_blocks_inv)
  have c: "concat (map (map ?sc) ?blocks) = map ?sc (zip keys vals)"
    using key_blocks_concat[OF bk, of "zip keys vals"] by (simp add: map_concat[symmetric])
  have nz: "map ?sc (zip keys vals) \<noteq> []" using ne len by (cases keys; cases vals) simp_all
  have "map fst (map ?sc (zip keys vals)) = map (spec_score q) (map fst (zip keys vals))"
    by (simp add: comp_def)
  then have fs: "map fst (map ?sc (zip keys vals)) = map (spec_score q) keys"
    using len by simp
  have "map snd (map ?sc (zip keys vals)) = map snd (zip keys vals)"
    by (simp add: comp_def)
  then have sn: "map snd (map ?sc (zip keys vals)) = vals"
    using len by simp
  have "tiled_row kKeysPerBlock (length q) (map Fin q) (map (map Fin) keys) (map (map Fin) vals) Kv
        = write_row Kv (foldl ?rstep ?init (map (map ?sc) ?blocks))"
    unfolding tiled_row_def z key_blocks_map f ..
  also have "\<dots> = map Fin (weighted_sum (softmax (map (spec_score q) keys)) vals Kv)"
    using write_row_inv[OF inv[simplified c append_Nil] nz] by (simp only: fs sn)
  also have "\<dots> = map Fin (textbook_row q keys vals Kv)"
  proof -
    have ne': "map (spec_score q) keys \<noteq> []" using ne by simp
    have "textbook_row q keys vals Kv
          = weighted_sum (softmax (map (spec_score q) keys)) vals Kv"
      unfolding textbook_row_def Let_def by (simp only: textbook_weights[OF ne'])
    then show ?thesis by simp
  qed
  finally show ?thesis .
qed

lemma sadd_assoc: "sadd (sadd a b) c = sadd a (sadd b c)"
  by (cases a; cases b; cases c) simp_all

lemma sadd_zero_right: "sadd w (Fin 0) = w"
  by (cases w) simp_all

lemma foldl_sadd_start: "foldl sadd a xs = sadd a (foldl sadd (Fin 0) xs)"
proof (induction xs arbitrary: a)
  case Nil
  show ?case by (simp add: sadd_zero_right)
next
  case (Cons x xs)
  have "foldl sadd a (x # xs) = foldl sadd (sadd a x) xs" by simp
  also have "\<dots> = sadd (sadd a x) (foldl sadd (Fin 0) xs)" by (rule Cons.IH)
  also have "\<dots> = sadd a (sadd x (foldl sadd (Fin 0) xs))" by (rule sadd_assoc)
  also have "\<dots> = sadd a (foldl sadd x xs)" by (simp only: Cons.IH[of x, symmetric])
  also have "\<dots> = sadd a (foldl sadd (Fin 0) (x # xs))" by (simp add: sadd_zero_left)
  finally show ?case .
qed

lemma foldl_sadd_append:
  "foldl sadd (Fin 0) (xs @ ys) = sadd (foldl sadd (Fin 0) xs) (foldl sadd (Fin 0) ys)"
  by (simp only: foldl_append foldl_sadd_start[of "foldl sadd (Fin 0) xs" ys])

lemma smul_sadd_scale:
  "0 < c \<Longrightarrow> smul (sadd a b) (Fin c) = sadd (smul a (Fin c)) (smul b (Fin c))"
  by (cases a; cases b) (simp_all add: distrib_right)

lemma smul_foldl_sadd:
  "0 < c \<Longrightarrow>
   smul (foldl sadd (Fin 0) xs) (Fin c) = foldl sadd (Fin 0) (map (\<lambda>x. smul x (Fin c)) xs)"
  by (induction xs rule: rev_induct) (simp_all add: smul_sadd_scale)

lemma smul_scale: "0 < c \<Longrightarrow> smul (smul (Fin w) v) (Fin c) = smul (Fin (w * c)) v"
  by (cases v) (simp_all add: zero_less_mult_iff mult.assoc mult.commute mult.left_commute)

lemma weight_rescale:
  "maskable r \<Longrightarrow>
   sexp (ssub r (Fin M')) = smul (sexp (ssub r (Fin M))) (Fin (exp (M - M')))"
  by (cases r) (simp_all add: ssub_def mult_exp_exp)

lemma term_rescale:
  "maskable r \<Longrightarrow>
   smul (sexp (ssub r (Fin M'))) v = smul (smul (sexp (ssub r (Fin M))) v) (Fin (exp (M - M')))"
  by (cases r) (simp_all add: ssub_def smul_scale mult_exp_exp)

lemma score_max_maskable: "maskable a \<Longrightarrow> maskable b \<Longrightarrow> maskable (score_max a b)"
  by (simp add: score_max_def)

lemma score_max_assoc:
  "maskable a \<Longrightarrow> maskable b \<Longrightarrow> maskable c \<Longrightarrow>
   score_max (score_max a b) c = score_max a (score_max b c)"
  by (cases a; cases b; cases c) (auto simp: score_max_def)

lemma score_max_NInf_left: "maskable b \<Longrightarrow> score_max NInf b = b"
  by (cases b) (simp_all add: score_max_def)

lemma foldl_score_max_maskable:
  "maskable a \<Longrightarrow> list_all maskable xs \<Longrightarrow> maskable (foldl score_max a xs)"
  by (induction xs arbitrary: a) (simp_all add: score_max_maskable)

lemma foldl_score_max_start:
  "maskable a \<Longrightarrow> list_all maskable xs \<Longrightarrow>
   foldl score_max a xs = score_max a (foldl score_max NInf xs)"
proof (induction xs arbitrary: a)
  case Nil
  then show ?case by (cases a) (simp_all add: score_max_def)
next
  case (Cons x xs)
  have x: "maskable x" and xs: "list_all maskable xs" using Cons.prems(2) by simp_all
  have r: "maskable (foldl score_max NInf xs)" using xs by (simp add: foldl_score_max_maskable)
  have "foldl score_max a (x # xs) = foldl score_max (score_max a x) xs" by simp
  also have "\<dots> = score_max (score_max a x) (foldl score_max NInf xs)"
    using Cons.prems(1) x xs by (intro Cons.IH) (simp_all add: score_max_maskable)
  also have "\<dots> = score_max a (score_max x (foldl score_max NInf xs))"
    using Cons.prems(1) x r by (rule score_max_assoc)
  also have "\<dots> = score_max a (foldl score_max x xs)"
    using Cons.IH[OF x xs] by simp
  also have "\<dots> = score_max a (foldl score_max NInf (x # xs))"
    using x by (simp add: score_max_NInf_left)
  finally show ?case .
qed

lemma score_max_is_Fin:
  "maskable a \<Longrightarrow> maskable b \<Longrightarrow> is_Fin (score_max a b) \<longleftrightarrow> is_Fin a \<or> is_Fin b"
  by (cases a; cases b) (simp_all add: score_max_def)

lemma foldl_score_max_is_Fin:
  "maskable a \<Longrightarrow> list_all maskable xs \<Longrightarrow>
   is_Fin (foldl score_max a xs) \<longleftrightarrow> is_Fin a \<or> list_ex is_Fin xs"
  by (induction xs arbitrary: a) (auto simp: score_max_is_Fin score_max_maskable)

lemma seen_max_maskable: "list_all maskable (map fst seen) \<Longrightarrow> maskable (seen_max seen)"
  by (simp add: seen_max_def foldl_score_max_maskable)

lemma seen_max_is_Fin:
  "list_all maskable (map fst seen) \<Longrightarrow> is_Fin (seen_max seen) \<longleftrightarrow> list_ex is_Fin (map fst seen)"
  by (simp add: seen_max_def foldl_score_max_is_Fin)

lemma seen_max_append:
  assumes "list_all maskable (map fst seen)" and "list_all maskable (map fst block)"
  shows "seen_max (seen @ block)
         = score_max (seen_max seen) (foldl score_max NInf (map fst block))"
  using foldl_score_max_start[OF seen_max_maskable[OF assms(1)] assms(2)]
  by (simp add: seen_max_def)

lemma zip_weights:
  "map (\<lambda>(w, row). smul w (row ! k)) (zip (map f (map fst block)) (map snd block))
   = map (\<lambda>p. smul (f (fst p)) (snd p ! k)) block"
  by (induction block) simp_all

lemma fold_block_inv_s:
  assumes inv: "fold_inv K seen st"
    and ms: "list_all maskable (map fst seen)"
    and fs: "seen = [] \<or> list_ex is_Fin (map fst seen)"
    and mb: "list_all maskable (map fst block)"
    and fb: "list_ex is_Fin (map fst (seen @ block))"
  shows "fold_inv K (seen @ block) (fold_block st (map fst block) (map snd block))"
proof -
  let ?bm = "foldl score_max NInf (map fst block)"
  have mx: "seen_max (seen @ block) = score_max (seen_max seen) ?bm"
    using ms mb by (rule seen_max_append)
  have "list_all maskable (map fst (seen @ block))" using ms mb by simp
  then have "is_Fin (seen_max (seen @ block))" using fb by (simp only: seen_max_is_Fin)
  then obtain M' where M': "seen_max (seen @ block) = Fin M'" by (auto simp: is_Fin_conv)
  have mi: "score_max (m_prime st) ?bm = Fin M'"
    using inv mx M' by (simp add: fold_inv_def)
  obtain c where corr: "sexp (ssub (m_prime st) (Fin M')) = Fin c"
    and rs: "smul (seen_sum seen) (Fin c)
             = foldl sadd (Fin 0) (map (\<lambda>p. sexp (ssub (fst p) (Fin M'))) seen)"
    and ra: "\<And>k. smul (seen_acc seen k) (Fin c)
             = foldl sadd (Fin 0)
                 (map (\<lambda>p. smul (sexp (ssub (fst p) (Fin M'))) (snd p ! k)) seen)"
  proof (cases "seen = []")
    case True
    have "sexp (ssub (m_prime st) (Fin M')) = Fin 0"
      using inv True by (simp add: fold_inv_def seen_max_def ssub_def)
    moreover have "smul (seen_sum seen) (Fin 0)
             = foldl sadd (Fin 0) (map (\<lambda>p. sexp (ssub (fst p) (Fin M'))) seen)"
      using True by (simp add: seen_sum_def)
    moreover have "smul (seen_acc seen k) (Fin 0)
         = foldl sadd (Fin 0) (map (\<lambda>p. smul (sexp (ssub (fst p) (Fin M'))) (snd p ! k)) seen)"
      for k
      using True by (simp add: seen_acc_def)
    ultimately show ?thesis using that by blast
  next
    case False
    then have "is_Fin (seen_max seen)" using fs ms by (simp add: seen_max_is_Fin)
    then obtain M where M: "seen_max seen = Fin M" by (auto simp: is_Fin_conv)
    let ?c = "exp (M - M')"
    have pos: "0 < ?c" by simp
    have mk: "maskable (fst p)" if "p \<in> set seen" for p
      using ms that by (simp add: list_all_iff)
    have "sexp (ssub (m_prime st) (Fin M')) = Fin ?c"
      using inv M by (simp add: fold_inv_def ssub_def)
    moreover have "smul (seen_sum seen) (Fin ?c)
             = foldl sadd (Fin 0) (map (\<lambda>p. sexp (ssub (fst p) (Fin M'))) seen)"
    proof -
      have "smul (seen_sum seen) (Fin ?c)
            = foldl sadd (Fin 0) (map (\<lambda>x. smul x (Fin ?c))
                (map (\<lambda>p. sexp (ssub (fst p) (Fin M))) seen))"
        unfolding seen_sum_def M by (rule smul_foldl_sadd[OF pos])
      also have "map (\<lambda>x. smul x (Fin ?c)) (map (\<lambda>p. sexp (ssub (fst p) (Fin M))) seen)
            = map (\<lambda>p. sexp (ssub (fst p) (Fin M'))) seen"
        using mk by (simp add: weight_rescale[of _ M' M])
      finally show ?thesis .
    qed
    moreover have "smul (seen_acc seen k) (Fin ?c)
         = foldl sadd (Fin 0) (map (\<lambda>p. smul (sexp (ssub (fst p) (Fin M'))) (snd p ! k)) seen)"
      for k
    proof -
      have "smul (seen_acc seen k) (Fin ?c)
            = foldl sadd (Fin 0) (map (\<lambda>x. smul x (Fin ?c))
                (map (\<lambda>p. smul (sexp (ssub (fst p) (Fin M))) (snd p ! k)) seen))"
        unfolding seen_acc_def M by (rule smul_foldl_sadd[OF pos])
      also have "map (\<lambda>x. smul x (Fin ?c))
                   (map (\<lambda>p. smul (sexp (ssub (fst p) (Fin M))) (snd p ! k)) seen)
            = map (\<lambda>p. smul (sexp (ssub (fst p) (Fin M'))) (snd p ! k)) seen"
        using mk by (simp add: term_rescale[of _ M' _ M])
      finally show ?thesis .
    qed
    ultimately show ?thesis using that by blast
  qed
  have lenb: "length (buf st) = K" using inv by (simp add: fold_inv_def)
  have s: "sadd (smul (s_prime st) (Fin c))
             (foldl sadd (Fin 0) (map (\<lambda>r. sexp (ssub r (Fin M'))) (map fst block)))
           = seen_sum (seen @ block)"
  proof -
    have "s_prime st = seen_sum seen" using inv by (simp add: fold_inv_def)
    then show ?thesis
      unfolding seen_sum_def[of "seen @ block"] M'
      by (simp add: rs foldl_sadd_append[symmetric] comp_def del: foldl_append)
  qed
  have a: "sadd (smul (buf st ! k) (Fin c))
             (foldl sadd (Fin 0)
                (map (\<lambda>(w, row). smul w (row ! k))
                   (zip (map (\<lambda>r. sexp (ssub r (Fin M'))) (map fst block)) (map snd block))))
           = seen_acc (seen @ block) k" if "k < K" for k
  proof -
    have "buf st ! k = seen_acc seen k" using inv that by (simp add: fold_inv_def)
    then show ?thesis
      unfolding seen_acc_def[of "seen @ block"] M' zip_weights
      by (simp add: ra foldl_sadd_append[symmetric] del: foldl_append)
  qed
  show ?thesis
    unfolding fold_inv_def fold_block_def Let_def mi corr
    using M' s a lenb by simp
qed

lemma fold_inv_init: "fold_inv K [] \<lparr>buf = fill_zero K, s_prime = Fin 0, m_prime = NInf\<rparr>"
  by (auto simp: fold_inv_def seen_max_def seen_sum_def seen_acc_def fill_zero_def
        intro: nth_equalityI)

lemma fold_blocks_inv_s:
  assumes "fold_inv K seen st"
    and "list_all maskable (map fst seen)"
    and "list_ex is_Fin (map fst seen)"
    and "\<forall>b\<in>set blocks. list_all maskable (map fst b)"
  shows "fold_inv K (seen @ concat blocks)
           (foldl (\<lambda>s b. fold_block s (map fst b) (map snd b)) st blocks)"
  using assms
proof (induction blocks arbitrary: seen st)
  case Nil
  then show ?case by simp
next
  case (Cons b blocks)
  have "fold_inv K (seen @ b) (fold_block st (map fst b) (map snd b))"
    using Cons.prems by (intro fold_block_inv_s) simp_all
  from Cons.IH[OF this] Cons.prems(2,3,4) show ?case by simp
qed

lemma online_inv_fold_inv:
  assumes ne: "seen \<noteq> []" and len: "\<forall>p\<in>set seen. K \<le> length (snd p)"
  shows "online_inv K seen st
         \<longleftrightarrow> fold_inv K (map (\<lambda>p. (Fin (fst p), map Fin (snd p))) seen) st"
proof -
  let ?lift = "\<lambda>p::real \<times> real list. (Fin (fst p), map Fin (snd p))"
  let ?M = "top_score seen"
  have f: "map fst (map ?lift seen) = map Fin (map fst seen)" by (simp add: comp_def)
  have "foldl score_max NInf (map Fin (map fst seen)) = Fin (Max (set (map fst seen)))"
    using ne by (intro block_max) simp
  then have m: "seen_max (map ?lift seen) = Fin ?M"
    unfolding seen_max_def top_score_def f .
  have w: "map (\<lambda>p. sexp (ssub (fst p) (Fin ?M))) (map ?lift seen)
        = map (\<lambda>p. Fin (exp (fst p - ?M))) seen"
    by (simp add: ssub_def comp_def)
  have s: "seen_sum (map ?lift seen) = Fin (wsum ?M seen)"
    unfolding seen_sum_def m w by (simp add: foldl_sadd_Fin wsum_def)
  have a: "seen_acc (map ?lift seen) k = Fin (wacc ?M seen k)" if "k < K" for k
  proof -
    have t: "map (\<lambda>p. smul (sexp (ssub (fst p) (Fin ?M))) (snd p ! k)) (map ?lift seen)
          = map (\<lambda>p. Fin (exp (fst p - ?M) * snd p ! k)) seen"
      using len that by (auto simp: ssub_def comp_def)
    show ?thesis
      unfolding seen_acc_def m t by (simp add: foldl_sadd_Fin wacc_def)
  qed
  have b: "map (seen_acc (map ?lift seen)) [0..<K] = map (\<lambda>k. Fin (wacc ?M seen k)) [0..<K]"
    using a by simp
  show ?thesis unfolding online_inv_def fold_inv_def m s b using ne by simp
qed

lemma key_loop_append:
  "key_loop key val K aar i (ls @ ls') st =
     (case key_loop key val K aar i ls st of
        None \<Rightarrow> None
      | Some st' \<Rightarrow> key_loop key val K aar i ls' st')"
  by (induction ls arbitrary: st) (simp_all split: option.splits)

lemma exp_args_stats:
  assumes "stats_init st \<or> stats_run st"
  shows "list_all nonpos (exp_args (Fin x) st)"
proof -
  from assms show ?thesis
  proof
    assume "stats_init st"
    then show ?thesis by (simp add: stats_init_def exp_args_def ssub_def)
  next
    assume "stats_run st"
    then obtain M where "m_prime st = Fin M" by (auto simp: stats_run_def is_Fin_conv)
    then show ?thesis by (simp add: exp_args_def ssub_def)
  qed
qed

lemma fold_key_stats:
  assumes f: "fold_key K (Fin x) vi st = Some st'" and s: "stats_init st \<or> stats_run st"
  shows "stats_run st'"
proof -
  from s show ?thesis
  proof
    assume "stats_init st"
    then show ?thesis
      using f by (auto simp: stats_init_def stats_run_def fold_key_def ssub_def Let_def
            split: option.splits)
  next
    assume r: "stats_run st"
    then obtain M s where m: "m_prime st = Fin M" and sp: "s_prime st = Fin s" and s1: "1 \<le> s"
      by (cases "m_prime st"; cases "s_prime st") (simp_all add: stats_run_def)
    show ?thesis
    proof (cases "M < x")
      case True
      have "0 \<le> s * exp (M - x)" using s1 by simp
      then show ?thesis
        using f m sp True
        by (auto simp: stats_run_def fold_key_def ssub_def Let_def split: option.splits)
    next
      case False
      have "0 \<le> exp (x - M)" by simp
      then have "1 \<le> s + exp (x - M)" using s1 by linarith
      then show ?thesis
        using f m sp False
        by (auto simp: stats_run_def fold_key_def ssub_def Let_def split: option.splits)
    qed
  qed
qed

lemma key_loop_stats:
  assumes "key_loop key val K aar i ls st = Some st'"
    and "\<forall>l\<in>set ls. \<exists>x. dot_loop aar (row_ptr key i l) [0..<K] (Fin 0) = Some (Fin x)"
    and "stats_init st \<or> stats_run st"
  shows "if ls = [] then st' = st else stats_run st'"
  using assms
proof (induction ls arbitrary: st)
  case Nil
  then show ?case by simp
next
  case (Cons l ls)
  from Cons.prems(2) obtain x where
    x: "dot_loop aar (row_ptr key i l) [0..<K] (Fin 0) = Some (Fin x)" by auto
  from Cons.prems(1) x obtain st1 where
    st1: "fold_key K (Fin x) (row_ptr val i l) st = Some st1"
    and rest: "key_loop key val K aar i ls st1 = Some st'"
    by (auto split: option.splits)
  have r1: "stats_run st1" using fold_key_stats[OF st1 Cons.prems(3)] .
  have "if ls = [] then st' = st1 else stats_run st'"
    using Cons.IH[OF rest] Cons.prems(2) r1 by simp
  then show ?case using r1 by (simp split: if_splits)
qed

lemma sdiv_finite: "1 \<le> s \<Longrightarrow> is_Fin b \<Longrightarrow> is_Fin (sdiv b (Fin s))"
  by (cases b) simp_all

lemma dot_loop_in:
  assumes "\<forall>k\<in>set ks. (\<exists>a. ld aar k = Some a) \<and> (\<exists>b. ld bar k = Some b)"
  shows "\<exists>si. dot_loop aar bar ks s = Some si"
  using assms by (induction ks arbitrary: s) auto

lemma fold_key_in:
  assumes "length (buf st) = K" and "\<forall>k<K. \<exists>x. ld vi k = Some x"
  shows "\<exists>st'. fold_key K si vi st = Some st' \<and> length (buf st') = K"
proof -
  from assms(2) obtain v where v: "\<forall>k<K. ld vi k = Some (v k)" by metis
  show ?thesis
    using acc_loop_upt[OF assms(1) v] by (simp add: fold_key_def Let_def)
qed

lemma key_loop_in:
  assumes sh: "kernel_shapes query key val" and i: "i < size0 query" and j: "j < size1 query"
    and "length (buf st) = size2 query" and "\<forall>l\<in>set ls. l < size1 key"
  shows "\<exists>st'. key_loop key val (size2 query) (row_ptr query i j) i ls st = Some st'"
  using assms(4,5)
proof (induction ls arbitrary: st)
  case Nil
  show ?case by simp
next
  case (Cons l ls)
  let ?K = "size2 query"
  have l: "l < size1 key" using Cons.prems(2) by simp
  have "\<forall>k\<in>set [0..<?K]. (\<exists>a. ld (row_ptr query i j) k = Some a)
          \<and> (\<exists>b. ld (row_ptr key i l) k = Some b)"
    using sh i j l by (simp add: kernel_shapes_def ld_row_in)
  from dot_loop_in[OF this] obtain si where
    si: "dot_loop (row_ptr query i j) (row_ptr key i l) [0..<?K] (Fin 0) = Some si" by blast
  have "\<forall>k<?K. \<exists>x. ld (row_ptr val i l) k = Some x"
    using sh i l by (simp add: kernel_shapes_def ld_row_in)
  from fold_key_in[OF Cons.prems(1) this] obtain st1 where
    st1: "fold_key ?K si (row_ptr val i l) st = Some st1" "length (buf st1) = ?K" by blast
  from Cons.IH[OF st1(2)] Cons.prems(2) obtain st' where
    "key_loop key val ?K (row_ptr query i j) i ls st1 = Some st'" by auto
  then show ?case using si st1(1) by simp
qed

lemma kernel_reads_inside_storages:
  assumes "kernel_shapes query key val" and "i < size0 query" and "j < size1 query"
  shows "\<exists>st. row_final query key val i j = Some st"
  using key_loop_in[OF assms, of "\<lparr>buf = fill_zero (size2 query), s_prime = Fin 0, m_prime = NInf\<rparr>"
      "[0..<size1 key]"]
  by (simp add: row_final_def fill_zero_def Let_def)

lemma softmax_half_zero:
  "softmax [1 / 2, 0] = [1 / (1 + exp (- 1 / 2)), exp (- 1 / 2) / (1 + exp (- 1 / 2))]"
  using textbook_weights[of "[1 / 2, 0]" "1 / 2", symmetric] by simp

lemma softmax_zero_zero: "softmax [0, 0] = [1 / 2, 1 / 2]"
  by (simp add: softmax_def)


lemmas kernel_eval = attend_row_def row_final_def fold_key_def row_ptr_def ld_def rd_def
  fill_zero_def write_row_def ssub_def exp_args_def Let_def

lemmas inv_eval = fold_inv_def seen_max_def seen_sum_def seen_acc_def score_max_def
  fold_block_def fill_zero_def ssub_def Let_def

section \<open>What the scalar kernel computes\<close>

text \<open>
  On finite inputs whose Value has the length of Key and the feature dimension of Query
  (two shapes that the operator does not check), for a query row with at least one key:
  the running maximum at the moment the output row is written is the largest of the dot
  products that the kernel folds (\<open>kernel_scores\<close>, without the scale of the
  specification); the row written is \<open>buf / s_prime\<close> (\<open>write_row\<close>), and it is the sum
  of the Value rows weighted by the softmax of these dot products.
\<close>

lemma scalar_kernel_softmax_of_dot_products:
  assumes sh: "kernel_shapes query key val"
    and fin: "all_finite query" "all_finite key" "all_finite val"
    and i: "i < size0 query" and j: "j < size1 query" and n: "0 < size1 key"
  shows "\<exists>st. row_final query key val i j = Some st
           \<and> m_prime st = Fin (Max (set (kernel_scores query key i j)))
           \<and> attend_row query key val i j = Some (write_row (size2 query) st)
           \<and> write_row (size2 query) st
               = map Fin (weighted_sum (softmax (kernel_scores query key i j)) (kernel_values val i)
                            (size2 query))
           \<and> (\<forall>l<size1 key.
                 dot_loop (row_ptr query i j) (row_ptr key i l) [0..<size2 query] (Fin 0)
                 = Some (Fin (kernel_scores query key i j ! l)))"
proof -
  let ?K = "size2 query" and ?seen = "seen_upto query key val i j (size1 key)"
  from key_loop_inv[OF sh fin i j order_refl] obtain st where
    st: "key_loop key val ?K (row_ptr query i j) i [0..<size1 key]
           \<lparr>buf = fill_zero ?K, s_prime = Fin 0, m_prime = NInf\<rparr> = Some st"
    and inv: "online_inv ?K ?seen st" by blast
  have ne: "?seen \<noteq> []" using n by (simp add: seen_upto_def)
  have sv: "size1 val = size1 key" using sh by (simp add: kernel_shapes_def)
  have rf: "row_final query key val i j = Some st" using st by (simp add: row_final_def)
  have m: "m_prime st = Fin (Max (set (kernel_scores query key i j)))"
    using inv ne by (simp add: online_inv_def top_score_def map_fst_seen)
  have w: "write_row ?K st
           = map Fin (weighted_sum (softmax (kernel_scores query key i j)) (kernel_values val i) ?K)"
    using write_row_inv[OF inv ne] by (simp add: map_fst_seen map_snd_seen[OF sv])
  have d: "\<forall>l<size1 key.
             dot_loop (row_ptr query i j) (row_ptr key i l) [0..<?K] (Fin 0)
             = Some (Fin (kernel_scores query key i j ! l))"
  proof (intro allI impI)
    fix l assume l: "l < size1 key"
    have "dot_loop (row_ptr query i j) (row_ptr key i l) [0..<?K] (Fin 0)
          = Some (Fin (dot (row3 query i j) (row3 key i l)))"
      using sh fin i j l by (intro dot_loop_rows) (simp_all add: kernel_shapes_def)
    then show "dot_loop (row_ptr query i j) (row_ptr key i l) [0..<?K] (Fin 0)
          = Some (Fin (kernel_scores query key i j ! l))"
      using l by (simp add: kernel_scores_def)
  qed
  show ?thesis using rf m w d by (simp add: attend_row_def)
qed

section \<open>Each fold preserves the invariant\<close>

text \<open>
  C5, amended: the invariant \<open>fold_inv\<close> (\<open>m\<close> the largest score seen,
  \<open>s = \<Sum> exp (score - m)\<close>, \<open>acc = \<Sum> exp (score - m) * value\<close>) holds before the
  first key, and a fold preserves it on raw scores that are finite or minus infinity,
  provided the keys seen once the block is folded include one with a finite score:
  \<open>fold_block\<close> on any such block of Value rows of \<open>K\<close> entries, whatever the rows hold
  and whatever keys were seen before (none, or keys with a finite score among them);
  hence any sequence of such blocks with a finite score seen once the first of them is
  folded, that is any such blocking of the keys that follow; and the fold of one key of
  the scalar kernel (\<open>fold_key\<close>, lines 52 to 63), which is \<open>fold_block\<close> on a block of
  one key.
\<close>

theorem fold_preserves_invariant:
  assumes inv: "fold_inv K seen st"
    and ms: "list_all maskable (map fst seen)"
    and fs: "seen = [] \<or> list_ex is_Fin (map fst seen)"
  shows "fold_inv K [] \<lparr>buf = fill_zero K, s_prime = Fin 0, m_prime = NInf\<rparr>
       \<and> (\<forall>block. list_all maskable (map fst block)
               \<and> list_ex is_Fin (map fst (seen @ block))
               \<and> list_all (\<lambda>p. length (snd p) = K) block \<longrightarrow>
             fold_inv K (seen @ block) (fold_block st (map fst block) (map snd block)))
       \<and> (\<forall>block blocks. list_all maskable (map fst block)
               \<and> list_ex is_Fin (map fst (seen @ block))
               \<and> list_all (\<lambda>b. list_all maskable (map fst b)) blocks
               \<and> list_all (\<lambda>p. length (snd p) = K) (concat (block # blocks)) \<longrightarrow>
             fold_inv K (seen @ concat (block # blocks))
               (foldl (\<lambda>s b. fold_block s (map fst b) (map snd b)) st (block # blocks)))
       \<and> (\<forall>si v vi. maskable si \<and> list_ex is_Fin (map fst seen @ [si])
               \<and> length v = K \<and> (\<forall>k<K. ld vi k = Some (v ! k)) \<longrightarrow>
             fold_key K si vi st = Some (fold_block st [si] [v])
             \<and> fold_inv K (seen @ [(si, v)]) (fold_block st [si] [v]))"
proof (intro conjI allI impI)
  show "fold_inv K [] \<lparr>buf = fill_zero K, s_prime = Fin 0, m_prime = NInf\<rparr>"
    by (rule fold_inv_init)
next
  fix block :: "(scalar \<times> scalar list) list"
  assume "list_all maskable (map fst block) \<and> list_ex is_Fin (map fst (seen @ block))
            \<and> list_all (\<lambda>p. length (snd p) = K) block"
  then show "fold_inv K (seen @ block) (fold_block st (map fst block) (map snd block))"
    using inv ms fs by (intro fold_block_inv_s) simp_all
next
  fix block :: "(scalar \<times> scalar list) list" and blocks :: "(scalar \<times> scalar list) list list"
  assume h: "list_all maskable (map fst block) \<and> list_ex is_Fin (map fst (seen @ block))
            \<and> list_all (\<lambda>b. list_all maskable (map fst b)) blocks
            \<and> list_all (\<lambda>p. length (snd p) = K) (concat (block # blocks))"
  have first: "fold_inv K (seen @ block) (fold_block st (map fst block) (map snd block))"
    using inv ms fs h by (intro fold_block_inv_s) simp_all
  have "fold_inv K ((seen @ block) @ concat blocks)
          (foldl (\<lambda>s b. fold_block s (map fst b) (map snd b))
             (fold_block st (map fst block) (map snd block)) blocks)"
    using first ms h by (intro fold_blocks_inv_s) (auto simp: list_all_iff)
  then show "fold_inv K (seen @ concat (block # blocks))
               (foldl (\<lambda>s b. fold_block s (map fst b) (map snd b)) st (block # blocks))"
    by simp
next
  fix si :: scalar and v :: "scalar list" and vi :: ptr
  assume h: "maskable si \<and> list_ex is_Fin (map fst seen @ [si])
               \<and> length v = K \<and> (\<forall>k<K. ld vi k = Some (v ! k))"
  have lenb: "length (buf st) = K" using inv by (simp add: fold_inv_def)
  show "fold_key K si vi st = Some (fold_block st [si] [v])"
    using lenb h by (intro fold_key_eq_fold_block) simp_all
  have "fold_inv K (seen @ [(si, v)])
          (fold_block st (map fst [(si, v)]) (map snd [(si, v)]))"
    using inv ms fs h by (intro fold_block_inv_s) simp_all
  then show "fold_inv K (seen @ [(si, v)]) (fold_block st [si] [v])" by simp
qed

theorem fold_preserves_invariant_witness:
  "fold_inv 2 [(Fin 0, [Fin 1, Fin 2])] \<lparr>buf = [Fin 1, Fin 2], s_prime = Fin 1, m_prime = Fin 0\<rparr>
   \<and> fold_block \<lparr>buf = [Fin 1, Fin 2], s_prime = Fin 1, m_prime = Fin 0\<rparr>
       [NInf, Fin 1] [[Fin 5, Fin 6], [Fin 3, Fin 4]]
     = \<lparr>buf = [Fin (exp (- 1) + 3), Fin (2 * exp (- 1) + 4)], s_prime = Fin (exp (- 1) + 1),
        m_prime = Fin 1\<rparr>
   \<and> fold_inv 2 [(Fin 0, [Fin 1, Fin 2]), (NInf, [Fin 5, Fin 6]), (Fin 1, [Fin 3, Fin 4])]
       (fold_block \<lparr>buf = [Fin 1, Fin 2], s_prime = Fin 1, m_prime = Fin 0\<rparr>
          [NInf, Fin 1] [[Fin 5, Fin 6], [Fin 3, Fin 4]])
   \<and> fold_block
       (fold_block \<lparr>buf = [Fin 1, Fin 2], s_prime = Fin 1, m_prime = Fin 0\<rparr> [NInf] [[Fin 5, Fin 6]])
       [Fin 1] [[Fin 3, Fin 4]]
     = \<lparr>buf = [Fin (exp (- 1) + 3), Fin (2 * exp (- 1) + 4)], s_prime = Fin (exp (- 1) + 1),
        m_prime = Fin 1\<rparr>
   \<and> fold_inv 2 [(Fin 0, [Fin 1, Fin 2]), (NInf, [Fin 5, Fin 6]), (Fin 1, [Fin 3, Fin 4])]
       (fold_block
          (fold_block \<lparr>buf = [Fin 1, Fin 2], s_prime = Fin 1, m_prime = Fin 0\<rparr> [NInf]
             [[Fin 5, Fin 6]])
          [Fin 1] [[Fin 3, Fin 4]])
   \<and> fold_key 2 (Fin 1) (mem ex_v, 2) \<lparr>buf = [Fin 1, Fin 2], s_prime = Fin 1, m_prime = Fin 0\<rparr>
     = Some \<lparr>buf = [Fin (exp (- 1) + 3), Fin (2 * exp (- 1) + 4)], s_prime = Fin (exp (- 1) + 1),
             m_prime = Fin 1\<rparr>"
proof -
  let ?st = "\<lparr>buf = [Fin 1, Fin 2], s_prime = Fin 1, m_prime = Fin 0\<rparr>"
  let ?seen = "[(Fin 0, [Fin 1, Fin 2])]"
  let ?b1 = "[(NInf, [Fin 5, Fin 6])]" and ?b2 = "[(Fin 1, [Fin 3, Fin 4])]"
  let ?block = "[(NInf, [Fin 5, Fin 6]), (Fin 1, [Fin 3, Fin 4])]"
  have h: "fold_inv 2 ?seen ?st"
    by (simp add: inv_eval upt_rec)
  have m: "list_all maskable (map fst ?seen)" and f: "?seen = [] \<or> list_ex is_Fin (map fst ?seen)"
    by simp_all
  note t = fold_preserves_invariant[OF h m f]
  have e: "fold_block ?st [NInf, Fin 1] [[Fin 5, Fin 6], [Fin 3, Fin 4]]
     = \<lparr>buf = [Fin (exp (- 1) + 3), Fin (2 * exp (- 1) + 4)], s_prime = Fin (exp (- 1) + 1),
        m_prime = Fin 1\<rparr>"
    by (simp add: inv_eval upt_rec)
  have b: "fold_inv 2 (?seen @ ?block) (fold_block ?st (map fst ?block) (map snd ?block))"
    using t by (elim conjE allE[where x = "?block"]) simp
  have e2: "fold_block (fold_block ?st [NInf] [[Fin 5, Fin 6]]) [Fin 1] [[Fin 3, Fin 4]]
     = \<lparr>buf = [Fin (exp (- 1) + 3), Fin (2 * exp (- 1) + 4)], s_prime = Fin (exp (- 1) + 1),
        m_prime = Fin 1\<rparr>"
    by (simp add: inv_eval upt_rec)
  have "list_all maskable (map fst ?b1) \<and> list_ex is_Fin (map fst (?seen @ ?b1))
          \<and> list_all (\<lambda>b. list_all maskable (map fst b)) [?b2]
          \<and> list_all (\<lambda>p. length (snd p) = 2) (concat (?b1 # [?b2]))"
    by simp
  then have "fold_inv 2 (?seen @ concat (?b1 # [?b2]))
          (foldl (\<lambda>s b. fold_block s (map fst b) (map snd b)) ?st (?b1 # [?b2]))"
    using t by blast
  then have c: "fold_inv 2 (?seen @ ?block)
          (fold_block (fold_block ?st [NInf] [[Fin 5, Fin 6]]) [Fin 1] [[Fin 3, Fin 4]])"
    by simp
  have "maskable (Fin 1) \<and> list_ex is_Fin (map fst ?seen @ [Fin 1])
          \<and> length [Fin 3, Fin 4] = 2
          \<and> (\<forall>k<2. ld (mem ex_v, 2) k = Some ([Fin 3, Fin 4] ! k))"
    by (simp add: ld_def rd_def ex_v_def less_Suc_eq numeral_2_eq_2)
  then have "fold_key 2 (Fin 1) (mem ex_v, 2) ?st = Some (fold_block ?st [Fin 1] [[Fin 3, Fin 4]])"
    using t by blast
  then have k: "fold_key 2 (Fin 1) (mem ex_v, 2) ?st
     = Some \<lparr>buf = [Fin (exp (- 1) + 3), Fin (2 * exp (- 1) + 4)], s_prime = Fin (exp (- 1) + 1),
             m_prime = Fin 1\<rparr>"
    by (simp add: inv_eval upt_rec)
  show ?thesis using h e b e2 c k by simp
qed

text \<open>
  The claim as stated, for every key sequence, fails on the raw scores \<open>-inf\<close> and \<open>0\<close>
  folded one key at a time from the initial statistics: the first fold evaluates the
  correction at \<open>(-inf) - (-inf)\<close>, the sum and the accumulator are NaN from then on,
  and the invariant asks for the sum \<open>exp ((-inf) - 0) + exp (0 - 0) = 1\<close>. The scalar
  kernel meets these scores on the query \<open>[1]\<close> against the keys \<open>[-inf]\<close> and \<open>[0]\<close>.
\<close>

theorem leading_masked_key_breaks_invariant:
  "fold_inv 1 [] \<lparr>buf = fill_zero 1, s_prime = Fin 0, m_prime = NInf\<rparr>
   \<and> fold_block (fold_block \<lparr>buf = fill_zero 1, s_prime = Fin 0, m_prime = NInf\<rparr> [NInf] [[Fin 1]])
       [Fin 0] [[Fin 1]]
     = \<lparr>buf = [NaN], s_prime = NaN, m_prime = Fin 0\<rparr>
   \<and> seen_max [(NInf, [Fin 1]), (Fin 0, [Fin 1])] = Fin 0
   \<and> seen_sum [(NInf, [Fin 1]), (Fin 0, [Fin 1])] = Fin 1
   \<and> seen_acc [(NInf, [Fin 1]), (Fin 0, [Fin 1])] 0 = Fin 1
   \<and> \<not> fold_inv 1 [(NInf, [Fin 1]), (Fin 0, [Fin 1])]
         (fold_block
            (fold_block \<lparr>buf = fill_zero 1, s_prime = Fin 0, m_prime = NInf\<rparr> [NInf] [[Fin 1]])
            [Fin 0] [[Fin 1]])
   \<and> dot_loop (row_ptr one_q 0 0) (row_ptr masked_k 0 0) [0..<size2 one_q] (Fin 0) = Some NInf
   \<and> dot_loop (row_ptr one_q 0 0) (row_ptr masked_k 0 1) [0..<size2 one_q] (Fin 0) = Some (Fin 0)
   \<and> row_final one_q masked_k ones_v 0 0 = Some \<lparr>buf = [NaN], s_prime = NaN, m_prime = Fin 0\<rparr>"
  by (simp add: inv_eval kernel_eval one_q_def masked_k_def ones_v_def upt_rec)

section \<open>Every exponent is at most zero\<close>

text \<open>
  C6, amended: for every query row on which the kernel reads inside the three storages
  (as it does when Value has the length of Key and the feature dimension of Query,
  lemma \<open>kernel_reads_inside_storages\<close>) and every raw score is finite, whatever its
  magnitude, the two arguments handed to \<^verbatim>\<open>std::exp\<close> at every key (\<open>exp_args\<close>:
  \<open>m_prime - m_i\<close> and \<open>si - m_i\<close>) are at most zero; the normalizing sum at the
  moment the row is written is finite, zero when there is no key and at least one
  otherwise; and the row written is \<open>buf / s_prime\<close>, so that with at least one key an
  entry of it is finite wherever the accumulated entry \<open>buf[k]\<close> is.
\<close>

theorem finite_scores_exponents_nonpositive:
  assumes run: "row_final query key val i j = Some stN"
    and scores: "\<forall>l<size1 key. \<exists>x.
        dot_loop (row_ptr query i j) (row_ptr key i l) [0..<size2 query] (Fin 0) = Some (Fin x)"
  shows "(\<forall>n<size1 key. \<exists>st si.
            key_loop key val (size2 query) (row_ptr query i j) i [0..<n]
              \<lparr>buf = fill_zero (size2 query), s_prime = Fin 0, m_prime = NInf\<rparr> = Some st
            \<and> dot_loop (row_ptr query i j) (row_ptr key i n) [0..<size2 query] (Fin 0) = Some si
            \<and> list_all nonpos (exp_args si st))
       \<and> (\<exists>s. s_prime stN = Fin s \<and> (if size1 key = 0 then s = 0 else 1 \<le> s))
       \<and> attend_row query key val i j = Some (write_row (size2 query) stN)
       \<and> (\<forall>k<size2 query. 0 < size1 key \<and> is_Fin (buf stN ! k)
             \<longrightarrow> is_Fin (write_row (size2 query) stN ! k))"
proof -
  let ?K = "size2 query" and ?N = "size1 key" and ?aar = "row_ptr query i j"
  let ?init = "\<lparr>buf = fill_zero ?K, s_prime = Fin 0, m_prime = NInf\<rparr>"
  have init: "stats_init ?init \<or> stats_run ?init" by (simp add: stats_init_def)
  have whole: "key_loop key val ?K ?aar i [0..<?N] ?init = Some stN"
    using run by (simp add: row_final_def Let_def)
  have fin: "\<forall>l\<in>set [0..<n]. \<exists>x. dot_loop ?aar (row_ptr key i l) [0..<?K] (Fin 0) = Some (Fin x)"
    if "n \<le> ?N" for n
    using scores that by simp
  have a: "\<forall>n<?N. \<exists>st si.
            key_loop key val ?K ?aar i [0..<n] ?init = Some st
            \<and> dot_loop ?aar (row_ptr key i n) [0..<?K] (Fin 0) = Some si
            \<and> list_all nonpos (exp_args si st)"
  proof (intro allI impI)
    fix n assume n: "n < ?N"
    have "[0..<?N] = [0..<n] @ [n..<?N]"
      using n upt_add_eq_append[of 0 n "?N - n"] by simp
    then have "key_loop key val ?K ?aar i ([0..<n] @ [n..<?N]) ?init = Some stN"
      using whole by simp
    then obtain st where st: "key_loop key val ?K ?aar i [0..<n] ?init = Some st"
      by (auto simp: key_loop_append split: option.splits)
    have "if [0..<n] = [] then st = ?init else stats_run st"
      using key_loop_stats[OF st _ init] fin[of n] n by simp
    then have ok: "stats_init st \<or> stats_run st"
      using init by (simp split: if_splits)
    from scores n obtain x where
      x: "dot_loop ?aar (row_ptr key i n) [0..<?K] (Fin 0) = Some (Fin x)" by auto
    show "\<exists>st si.
            key_loop key val ?K ?aar i [0..<n] ?init = Some st
            \<and> dot_loop ?aar (row_ptr key i n) [0..<?K] (Fin 0) = Some si
            \<and> list_all nonpos (exp_args si st)"
      using st x exp_args_stats[OF ok] by blast
  qed
  have fN: "if [0..<?N] = [] then stN = ?init else stats_run stN"
    using key_loop_stats[OF whole _ init] fin[of ?N] by simp
  have b: "\<exists>s. s_prime stN = Fin s \<and> (if ?N = 0 then s = 0 else 1 \<le> s)"
  proof (cases "?N = 0")
    case True
    then show ?thesis using fN by simp
  next
    case False
    then have "stats_run stN" using fN by simp
    then show ?thesis using False by (cases "s_prime stN") (simp_all add: stats_run_def)
  qed
  have c: "attend_row query key val i j = Some (write_row ?K stN)"
    using run by (simp add: attend_row_def)
  have d: "\<forall>k<?K. 0 < ?N \<and> is_Fin (buf stN ! k) \<longrightarrow> is_Fin (write_row ?K stN ! k)"
  proof (intro allI impI)
    fix k assume k: "k < ?K" and h: "0 < ?N \<and> is_Fin (buf stN ! k)"
    from b h obtain s where s: "s_prime stN = Fin s" "1 \<le> s" by auto
    show "is_Fin (write_row ?K stN ! k)"
      using k h s by (simp add: write_row_def sdiv_finite)
  qed
  show ?thesis using a b c d by blast
qed

theorem finite_scores_exponents_nonpositive_witness:
  "dot_loop (row_ptr big_q 0 0) (row_ptr big_k 0 0) [0..<size2 big_q] (Fin 0) = Some (Fin 10000)
   \<and> dot_loop (row_ptr big_q 0 0) (row_ptr big_k 0 1) [0..<size2 big_q] (Fin 0) = Some (Fin 20000)
   \<and> key_loop big_k big_v (size2 big_q) (row_ptr big_q 0 0) 0 [0..<1]
        \<lparr>buf = fill_zero (size2 big_q), s_prime = Fin 0, m_prime = NInf\<rparr>
      = Some \<lparr>buf = [Fin 1], s_prime = Fin 1, m_prime = Fin 10000\<rparr>
   \<and> exp_args (Fin 20000) \<lparr>buf = [Fin 1], s_prime = Fin 1, m_prime = Fin 10000\<rparr>
      = [Fin (- 10000), Fin 0]
   \<and> list_all nonpos (exp_args (Fin 20000) \<lparr>buf = [Fin 1], s_prime = Fin 1, m_prime = Fin 10000\<rparr>)
   \<and> (\<exists>st. row_final big_q big_k big_v 0 0 = Some st
          \<and> (\<exists>s. s_prime st = Fin s \<and> 1 \<le> s)
          \<and> attend_row big_q big_k big_v 0 0 = Some (write_row 1 st)
          \<and> is_Fin (buf st ! 0)
          \<and> is_Fin (write_row 1 st ! 0))"
proof -
  have d0: "dot_loop (row_ptr big_q 0 0) (row_ptr big_k 0 0) [0..<size2 big_q] (Fin 0)
            = Some (Fin 10000)"
    and d1: "dot_loop (row_ptr big_q 0 0) (row_ptr big_k 0 1) [0..<size2 big_q] (Fin 0)
            = Some (Fin 20000)"
    by (simp_all add: kernel_eval big_q_def big_k_def)
  have sc: "\<forall>l<size1 big_k. \<exists>x.
        dot_loop (row_ptr big_q 0 0) (row_ptr big_k 0 l) [0..<size2 big_q] (Fin 0) = Some (Fin x)"
  proof (intro allI impI)
    fix l assume "l < size1 big_k"
    then have "l = 0 \<or> l = 1" by (auto simp: big_k_def)
    then show "\<exists>x. dot_loop (row_ptr big_q 0 0) (row_ptr big_k 0 l) [0..<size2 big_q] (Fin 0)
                  = Some (Fin x)"
      using d0 d1 by auto
  qed
  have "\<exists>st. row_final big_q big_k big_v 0 0 = Some st"
    by (simp add: kernel_eval big_q_def big_k_def big_v_def upt_rec)
  then obtain st where st: "row_final big_q big_k big_v 0 0 = Some st" by blast
  note t = finite_scores_exponents_nonpositive[OF st sc]
  have k1: "key_loop big_k big_v (size2 big_q) (row_ptr big_q 0 0) 0 [0..<1]
              \<lparr>buf = fill_zero (size2 big_q), s_prime = Fin 0, m_prime = NInf\<rparr>
            = Some \<lparr>buf = [Fin 1], s_prime = Fin 1, m_prime = Fin 10000\<rparr>"
    by (simp add: kernel_eval big_q_def big_k_def big_v_def)
  have "1 < size1 big_k" by (simp add: big_k_def)
  with t obtain st1 si where
    "key_loop big_k big_v (size2 big_q) (row_ptr big_q 0 0) 0 [0..<1]
       \<lparr>buf = fill_zero (size2 big_q), s_prime = Fin 0, m_prime = NInf\<rparr> = Some st1"
    "dot_loop (row_ptr big_q 0 0) (row_ptr big_k 0 1) [0..<size2 big_q] (Fin 0) = Some si"
    "list_all nonpos (exp_args si st1)"
    by blast
  then have n: "list_all nonpos
      (exp_args (Fin 20000) \<lparr>buf = [Fin 1], s_prime = Fin 1, m_prime = Fin 10000\<rparr>)"
    using k1 d1 by simp
  have e: "exp_args (Fin 20000) \<lparr>buf = [Fin 1], s_prime = Fin 1, m_prime = Fin 10000\<rparr>
            = [Fin (- 10000), Fin 0]"
    by (simp add: kernel_eval)
  have s: "\<exists>s. s_prime st = Fin s \<and> 1 \<le> s"
    using t by (auto simp: big_k_def)
  have a: "attend_row big_q big_k big_v 0 0 = Some (write_row 1 st)"
    using t by (simp add: big_q_def)
  have b: "is_Fin (buf st ! 0)"
    using st by (auto simp: kernel_eval big_q_def big_k_def big_v_def upt_rec)
  then have f: "is_Fin (write_row 1 st ! 0)"
    using t by (simp add: big_q_def big_k_def)
  show ?thesis using d0 d1 st k1 n e s a b f by blast
qed

text \<open>
  The claim as stated, for every input whose raw scores are finite, fails on a Value that
  holds plus infinity: the query \<open>[1]\<close> against the key \<open>[1]\<close> has the raw score \<open>1\<close>, and
  the output row is \<open>[+inf]\<close>.
\<close>

theorem infinite_value_output_is_infinite:
  "dot_loop (row_ptr one_q 0 0) (row_ptr one_q 0 0) [0..<size2 one_q] (Fin 0) = Some (Fin 1)
   \<and> attend_row one_q one_q inf_v 0 0 = Some [PInf]"
  by (simp add: kernel_eval one_q_def inf_v_def)

section \<open>A row whose scores are all minus infinity\<close>





section \<open>The precondition checks of the operator\<close>

text \<open>
  C7, amended: the operator fails before it allocates anything whenever Query or Key
  has a rank other than 3, Query and Key differ in feature dimension or in batch count,
  or one of the three inputs is not contiguous. When these checks pass, on a Value of
  rank 3, it allocates the output and the scratch buffer; an element type it does not
  support then makes it fail after the allocation and before the kernel starts, so
  before any output element is written. When all the conditions hold the outcome is
  that of the kernel, run on the accessors of the three inputs.
\<close>

theorem attention_precondition_checks:
  "(dim query \<noteq> 3 \<or> dim key \<noteq> 3 \<or> sizes query ! 2 \<noteq> sizes key ! 2
      \<or> sizes query ! 0 \<noteq> sizes key ! 0
      \<or> \<not> contiguous query \<or> \<not> contiguous key \<or> \<not> contiguous val
     \<longrightarrow> (\<exists>e. attention T query key val = ([], Inl e)))
   \<and> (dim query = 3 \<and> dim key = 3 \<and> dim val = 3 \<and> sizes query ! 2 = sizes key ! 2
      \<and> sizes query ! 0 = sizes key ! 0
      \<and> contiguous query \<and> contiguous key \<and> contiguous val
     \<longrightarrow> fst (attention T query key val)
           = [[sizes query ! 0, sizes query ! 1, sizes query ! 2], [T, 1, sizes query ! 2]]
         \<and> (\<not> supported_types query key val
             \<longrightarrow> (\<exists>e. snd (attention T query key val) = Inl e \<and> e \<noteq> OutOfBounds))
         \<and> (supported_types query key val
             \<longrightarrow> (\<exists>q k v. accessor (scalar_type query) query = Some q
                    \<and> accessor (scalar_type query) key = Some k
                    \<and> accessor (scalar_type query) val = Some v
                    \<and> snd (attention T query key val)
                        = (case attention_kernel q k v of
                             None \<Rightarrow> Inl OutOfBounds
                           | Some out \<Rightarrow>
                               Inr \<lparr>sizes = [sizes query ! 0, sizes query ! 1, sizes query ! 2],
                                    contiguous = True, scalar_type = scalar_type query,
                                    elems = out\<rparr>))))"
proof (intro conjI impI)
  assume "dim query \<noteq> 3 \<or> dim key \<noteq> 3 \<or> sizes query ! 2 \<noteq> sizes key ! 2
      \<or> sizes query ! 0 \<noteq> sizes key ! 0
      \<or> \<not> contiguous query \<or> \<not> contiguous key \<or> \<not> contiguous val"
  then show "\<exists>e. attention T query key val = ([], Inl e)"
    by (auto simp: attention_def)
next
  assume "dim query = 3 \<and> dim key = 3 \<and> dim val = 3 \<and> sizes query ! 2 = sizes key ! 2
      \<and> sizes query ! 0 = sizes key ! 0
      \<and> contiguous query \<and> contiguous key \<and> contiguous val"
  then show "fst (attention T query key val)
           = [[sizes query ! 0, sizes query ! 1, sizes query ! 2], [T, 1, sizes query ! 2]]"
    by (simp add: attention_def Let_def split: option.splits)
next
  assume "dim query = 3 \<and> dim key = 3 \<and> dim val = 3 \<and> sizes query ! 2 = sizes key ! 2
      \<and> sizes query ! 0 = sizes key ! 0
      \<and> contiguous query \<and> contiguous key \<and> contiguous val"
    and "\<not> supported_types query key val"
  then show "\<exists>e. snd (attention T query key val) = Inl e \<and> e \<noteq> OutOfBounds"
    by (auto simp: attention_def Let_def accessor_def supported_types_def split: option.splits)
next
  assume "dim query = 3 \<and> dim key = 3 \<and> dim val = 3 \<and> sizes query ! 2 = sizes key ! 2
      \<and> sizes query ! 0 = sizes key ! 0
      \<and> contiguous query \<and> contiguous key \<and> contiguous val"
    and "supported_types query key val"
  then show "\<exists>q k v. accessor (scalar_type query) query = Some q
                    \<and> accessor (scalar_type query) key = Some k
                    \<and> accessor (scalar_type query) val = Some v
                    \<and> snd (attention T query key val)
                        = (case attention_kernel q k v of
                             None \<Rightarrow> Inl OutOfBounds
                           | Some out \<Rightarrow>
                               Inr \<lparr>sizes = [sizes query ! 0, sizes query ! 1, sizes query ! 2],
                                    contiguous = True, scalar_type = scalar_type query,
                                    elems = out\<rparr>)"
    by (auto simp: attention_def Let_def accessor_def supported_types_def split: option.splits)
qed

lemmas operator_eval = attention_def accessor_def dim_def attention_kernel_def
  supported_types_def t_one_def t_v12_def t_strided_def

theorem attention_precondition_checks_witness:
  "attention 1 (t_one Float32) (t_one Float32) t_strided = ([], Inl (CheckFailed 100))
   \<and> fst (attention 1 (t_one Float32) (t_one Float64) (t_one Float32)) = [[1, 1, 1], [1, 1, 1]]
   \<and> snd (attention 1 (t_one Float32) (t_one Float64) (t_one Float32)) = Inl AccessorError
   \<and> attention 1 (t_one Float64) (t_one Float64) (t_one Float64)
       = ([[1, 1, 1], [1, 1, 1]],
          Inr \<lparr>sizes = [1, 1, 1], contiguous = True, scalar_type = Float64, elems = [Fin 1]\<rparr>)"
proof -
  have a: "\<not> contiguous t_strided" by (simp add: t_strided_def)
  have "\<exists>e. attention 1 (t_one Float32) (t_one Float32) t_strided = ([], Inl e)"
    using attention_precondition_checks[of "t_one Float32" "t_one Float32" t_strided 1] a
    by blast
  then have 1: "attention 1 (t_one Float32) (t_one Float32) t_strided = ([], Inl (CheckFailed 100))"
    by (simp add: operator_eval)
  have 2: "fst (attention 1 (t_one Float32) (t_one Float64) (t_one Float32)) = [[1, 1, 1], [1, 1, 1]]"
    using attention_precondition_checks[of "t_one Float32" "t_one Float64" "t_one Float32" 1]
    by (simp add: operator_eval)
  have 3: "snd (attention 1 (t_one Float32) (t_one Float64) (t_one Float32)) = Inl AccessorError"
    by (simp add: operator_eval)
  have 4: "attention 1 (t_one Float64) (t_one Float64) (t_one Float64)
       = ([[1, 1, 1], [1, 1, 1]],
          Inr \<lparr>sizes = [1, 1, 1], contiguous = True, scalar_type = Float64, elems = [Fin 1]\<rparr>)"
    using attention_precondition_checks[of "t_one Float64" "t_one Float64" "t_one Float64" 1]
    by (simp add: operator_eval kernel_eval)
  show ?thesis using 1 2 3 4 by simp
qed

text \<open>
  The claim as stated fails on three contiguous tensors of shape \<open>(1, 1, 1)\<close> whose
  element type is half precision: the element type is rejected, and the output and the
  scratch buffer have been allocated by then.
\<close>

theorem unsupported_type_fails_after_allocation:
  "attention 1 (t_one Float16) (t_one Float16) (t_one Float16)
   = ([[1, 1, 1], [1, 1, 1]], Inl DispatchError)"
  by (simp add: operator_eval)

section \<open>Where the scalar kernel departs from the specification\<close>

text \<open>
  C4: on a Query and a Key of shape \<open>(1, 1, 1)\<close> and a Value of shape \<open>(1, 1, 2)\<close> the
  operator returns a tensor of shape \<open>(1, 1, 1)\<close>: the third dimension is the feature
  dimension of Query, not the one of Value.
\<close>

theorem output_has_query_feature_dimension:
  "sizes t_v12 = [1, 1, 2]
   \<and> attention 1 (t_one Float32) (t_one Float32) t_v12
     = ([[1, 1, 1], [1, 1, 1]],
        Inr \<lparr>sizes = [1, 1, 1], contiguous = True, scalar_type = Float32, elems = [Fin 1]\<rparr>)"
  by (simp add: operator_eval kernel_eval)

text \<open>
  C3: on the query \<open>[1, 0, 0, 0]\<close> and the key \<open>[1, 0, 0, 0]\<close> the scalar kernel folds
  the raw score \<open>1\<close>, the dot product; the score of the specification is
  \<open>1 / sqrt 4 = 1 / 2\<close>, the dot product times the scale that the tiled kernel hands to
  its updater.
\<close>

theorem scalar_kernel_score_unscaled:
  "dot_loop (row_ptr ex4_q 0 0) (row_ptr ex4_k 0 0) [0..<size2 ex4_q] (Fin 0) = Some (Fin 1)
   \<and> spec_score (row3 ex4_q 0 0) (row3 ex4_k 0 0) = 1 / 2
   \<and> updater_scale (size2 ex4_q) = 1 / 2"
  by (simp add: kernel_eval ex4_q_def ex4_k_def spec_score_def updater_scale_def dot_def
        row3_def at3_def upt_rec)

text \<open>
  C2: on that query against the keys \<open>[1, 0, 0, 0]\<close> and \<open>[0, 0, 0, 0]\<close>, with Value
  equal to Key, the scalar kernel writes \<open>1 / (1 + exp (- 1))\<close> as the first entry of
  the output row; the textbook algorithm on the scores of the specification, and with
  it the tiled form (here with blocks of 32 keys), gives \<open>1 / (1 + exp (- 1 / 2))\<close>.
\<close>

theorem scalar_kernel_differs_from_textbook:
  "attend_row ex4_q ex4_k ex4_k 0 0 = Some [Fin (1 / (1 + exp (- 1))), Fin 0, Fin 0, Fin 0]
   \<and> textbook_row (row3 ex4_q 0 0) [row3 ex4_k 0 0, row3 ex4_k 0 1] (kernel_values ex4_k 0) 4
     = [1 / (1 + exp (- 1 / 2)), 0, 0, 0]
   \<and> tiled_row 32 4 (map Fin (row3 ex4_q 0 0)) (map (map Fin) [row3 ex4_k 0 0, row3 ex4_k 0 1])
       (map (map Fin) (kernel_values ex4_k 0)) 4
     = [Fin (1 / (1 + exp (- 1 / 2))), Fin 0, Fin 0, Fin 0]
   \<and> (1::real) / (1 + exp (- 1)) \<noteq> 1 / (1 + exp (- 1 / 2))"
proof -
  have a: "attend_row ex4_q ex4_k ex4_k 0 0
           = Some [Fin (1 / (1 + exp (- 1))), Fin 0, Fin 0, Fin 0]"
    by (simp add: kernel_eval ex4_q_def ex4_k_def upt_rec one_plus_exp_nz)
  have b: "textbook_row (row3 ex4_q 0 0) [row3 ex4_k 0 0, row3 ex4_k 0 1] (kernel_values ex4_k 0) 4
     = [1 / (1 + exp (- 1 / 2)), 0, 0, 0]"
    by (simp add: textbook_row_def spec_score_def dot_def row3_def at3_def kernel_values_def
          weighted_sum_def ex4_q_def ex4_k_def upt_rec Let_def)
  have l: "length (row3 ex4_q 0 0) = 4" by (simp add: row3_def ex4_q_def)
  have "tiled_row 32 (length (row3 ex4_q 0 0)) (map Fin (row3 ex4_q 0 0))
          (map (map Fin) [row3 ex4_k 0 0, row3 ex4_k 0 1])
          (map (map Fin) (kernel_values ex4_k 0)) 4
        = map Fin (textbook_row (row3 ex4_q 0 0) [row3 ex4_k 0 0, row3 ex4_k 0 1]
                     (kernel_values ex4_k 0) 4)"
    by (rule tiled_row_textbook) (simp_all add: kernel_values_def row3_def ex4_k_def)
  then have t: "tiled_row 32 4 (map Fin (row3 ex4_q 0 0))
          (map (map Fin) [row3 ex4_k 0 0, row3 ex4_k 0 1])
          (map (map Fin) (kernel_values ex4_k 0)) 4
        = [Fin (1 / (1 + exp (- 1 / 2))), Fin 0, Fin 0, Fin 0]"
    unfolding l b by simp
  have c: "(1::real) / (1 + exp (- 1)) \<noteq> 1 / (1 + exp (- 1 / 2))"
    by (simp add: one_plus_exp_nz)
  show ?thesis using a b t c by simp
qed

text \<open>
  A Value with more features than Query: on the query \<open>[1]\<close> against two keys \<open>[0]\<close>,
  with the Value rows \<open>[1, 2]\<close> and \<open>[3, 4]\<close>, the kernel writes the row \<open>[2]\<close>, of one
  entry; the weighted sum of the Value rows is \<open>[2, 3]\<close>.
\<close>

lemma value_row_cut_to_query_features:
  "attend_row one_q zero_k ex_v 0 0 = Some [Fin 2]
   \<and> map (spec_score (row3 one_q 0 0)) [row3 zero_k 0 0, row3 zero_k 0 1] = [0, 0]
   \<and> weighted_sum (softmax (map (spec_score (row3 one_q 0 0)) [row3 zero_k 0 0, row3 zero_k 0 1]))
       (kernel_values ex_v 0) (size2 ex_v)
     = [2, 3]"
proof -
  have a: "attend_row one_q zero_k ex_v 0 0 = Some [Fin 2]"
    by (simp add: kernel_eval one_q_def zero_k_def ex_v_def upt_rec)
  have sc: "map (spec_score (row3 one_q 0 0)) [row3 zero_k 0 0, row3 zero_k 0 1] = [0, 0]"
    by (simp add: spec_score_def dot_def row3_def at3_def one_q_def zero_k_def upt_rec)
  have w: "weighted_sum (softmax (map (spec_score (row3 one_q 0 0)) [row3 zero_k 0 0, row3 zero_k 0 1]))
       (kernel_values ex_v 0) (size2 ex_v)
     = [2, 3]"
    unfolding sc softmax_zero_zero
    by (simp add: weighted_sum_def kernel_values_def row3_def at3_def ex_v_def upt_rec)
  show ?thesis using a sc w by simp
qed

text \<open>
  C1: on the query \<open>[1, 0, 0, 0]\<close> against the keys \<open>[1, 0, 0, 0]\<close> and \<open>[0, 0, 0, 0]\<close>,
  with Value equal to Key, the running maximum at the moment the output row is written
  is \<open>1\<close>, the largest dot product, where the largest raw score of the specification
  is \<open>1 / 2\<close>; and the row written starts with \<open>1 / (1 + exp (- 1))\<close>, where the sum of
  the Value rows weighted by the softmax of the specification's scores \<open>(1 / 2, 0)\<close>
  starts with \<open>1 / (1 + exp (- 1 / 2))\<close>.
\<close>

theorem scalar_kernel_row_not_spec_softmax:
  "map_option m_prime (row_final ex4_q ex4_k ex4_k 0 0) = Some (Fin 1)
   \<and> map (spec_score (row3 ex4_q 0 0)) [row3 ex4_k 0 0, row3 ex4_k 0 1] = [1 / 2, 0]
   \<and> Max (set (map (spec_score (row3 ex4_q 0 0)) [row3 ex4_k 0 0, row3 ex4_k 0 1])) = 1 / 2
   \<and> attend_row ex4_q ex4_k ex4_k 0 0 = Some [Fin (1 / (1 + exp (- 1))), Fin 0, Fin 0, Fin 0]
   \<and> weighted_sum (softmax (map (spec_score (row3 ex4_q 0 0)) [row3 ex4_k 0 0, row3 ex4_k 0 1]))
       (kernel_values ex4_k 0) 4
     = [1 / (1 + exp (- 1 / 2)), 0, 0, 0]
   \<and> (1::real) / (1 + exp (- 1)) \<noteq> 1 / (1 + exp (- 1 / 2))"
proof -
  have m: "map_option m_prime (row_final ex4_q ex4_k ex4_k 0 0) = Some (Fin 1)"
    by (simp add: kernel_eval ex4_q_def ex4_k_def upt_rec)
  have sc: "map (spec_score (row3 ex4_q 0 0)) [row3 ex4_k 0 0, row3 ex4_k 0 1] = [1 / 2, 0]"
    by (simp add: spec_score_def dot_def row3_def at3_def ex4_q_def ex4_k_def upt_rec)
  have mx: "Max (set (map (spec_score (row3 ex4_q 0 0)) [row3 ex4_k 0 0, row3 ex4_k 0 1])) = 1 / 2"
    unfolding sc by simp
  have a: "attend_row ex4_q ex4_k ex4_k 0 0
           = Some [Fin (1 / (1 + exp (- 1))), Fin 0, Fin 0, Fin 0]"
    by (simp add: kernel_eval ex4_q_def ex4_k_def upt_rec one_plus_exp_nz)
  have w: "weighted_sum (softmax (map (spec_score (row3 ex4_q 0 0)) [row3 ex4_k 0 0, row3 ex4_k 0 1]))
       (kernel_values ex4_k 0) 4
     = [1 / (1 + exp (- 1 / 2)), 0, 0, 0]"
    unfolding sc softmax_half_zero
    by (simp add: weighted_sum_def kernel_values_def row3_def at3_def ex4_k_def upt_rec)
  have c: "(1::real) / (1 + exp (- 1)) \<noteq> 1 / (1 + exp (- 1 / 2))"
    by (simp add: one_plus_exp_nz)
  show ?thesis using m sc mx a w c by simp
qed

section \<open>The sparse product does not read the row indices\<close>

text \<open>
  C10: two calls of \<^verbatim>\<open>spmm_sputnik\<close> that differ only in \<open>row_indices\<close> return the same
  result. The precondition on \<open>row_indices\<close> is the one the operator imposes itself:
  \<^verbatim>\<open>data_ptr<int>()\<close> accepts the tensor, that is, its element type is \<open>Int32\<close>.
\<close>

theorem spmm_sputnik_ignores_row_indices:
  assumes "scalar_type ri1 = Int32" and "scalar_type ri2 = Int32"
  shows "spmm_sputnik b ri1 vals row_offsets column_indices m
       = spmm_sputnik b ri2 vals row_offsets column_indices m"
  using assms by (simp add: spmm_sputnik_def data_ptr_def LaunchSpmm_def Let_def)

lemma upto_small:
  "[0..(0::int)] = [0]" "[0..(1::int)] = [0, 1]" "[1..(1::int)] = [1]"
  by (simp_all add: upto.simps)

lemma spmm_identity_example:
  "spmm_sputnik sp_dense (sp_ints [0, 1]) sp_values (sp_ints [0, 1, 2]) (sp_ints [0, 1]) 2
   = Inr sp_dense"
  by (simp add: spmm_sputnik_def data_ptr_def LaunchSpmm_def Let_def dim_def spmm_entry_def
        rdi_def upto_small sp_dense_def sp_values_def sp_ints_def)

theorem spmm_sputnik_ignores_row_indices_witness:
  "scalar_type (sp_ints [0, 1]) = Int32 \<and> scalar_type (sp_ints [1, 0, 7]) = Int32
   \<and> spmm_sputnik sp_dense (sp_ints [1, 0, 7]) sp_values (sp_ints [0, 1, 2]) (sp_ints [0, 1]) 2
     = Inr sp_dense"
proof -
  have h1: "scalar_type (sp_ints [0, 1]) = Int32" and h2: "scalar_type (sp_ints [1, 0, 7]) = Int32"
    by (simp_all add: sp_ints_def)
  show ?thesis
    using spmm_sputnik_ignores_row_indices[OF h2 h1, of sp_dense sp_values "sp_ints [0, 1, 2]"
        "sp_ints [0, 1]" 2] h1 h2 spmm_identity_example
    by simp
qed

section \<open>The masked product\<close>

text \<open>
  C9: when the product of \<open>a\<close> and \<open>b\<close> is \<open>p\<close> and the mask has the shape of \<open>p\<close>,
  \<^verbatim>\<open>matmul_with_mask\<close> returns a tensor of the shape of \<open>p\<close> whose entry is the entry of
  \<open>p\<close> where the mask is true and minus infinity where the mask is false.
\<close>

theorem matmul_with_mask_entries:
  assumes "at_matmul a b = Some p" and "sizes msk = sizes p"
    and "length (elems msk) = length (elems p)"
  shows "\<exists>r. matmul_with_mask_kernel a b msk = Some r \<and> sizes r = sizes p
           \<and> length (elems r) = length (elems p)
           \<and> (\<forall>n<length (elems p). elems r ! n = (if elems msk ! n then elems p ! n else NInf))"
  using assms by (simp add: matmul_with_mask_kernel_def masked_fill_def logical_not_def)

lemma matmul_example: "at_matmul mm_a mm_b = Some mm_a"
  by (simp add: at_matmul_def matmul2_def mm_a_def mm_b_def upt_rec)

theorem matmul_with_mask_entries_witness:
  "at_matmul mm_a mm_b = Some mm_a \<and> sizes mm_mask = sizes mm_a
   \<and> length (elems mm_mask) = length (elems mm_a)
   \<and> (\<exists>r. matmul_with_mask_kernel mm_a mm_b mm_mask = Some r
          \<and> elems r ! 0 = Fin 5 \<and> elems r ! 1 = NInf)"
proof -
  have h2: "sizes mm_mask = sizes mm_a" and h3: "length (elems mm_mask) = length (elems mm_a)"
    by (simp_all add: mm_mask_def mm_a_def)
  from matmul_with_mask_entries[OF matmul_example h2 h3] obtain r where
    r: "matmul_with_mask_kernel mm_a mm_b mm_mask = Some r"
       "\<forall>n<length (elems mm_a). elems r ! n = (if elems mm_mask ! n then elems mm_a ! n else NInf)"
    by blast
  have "elems r ! 0 = Fin 5" and "elems r ! 1 = NInf"
    using r(2) by (simp_all add: mm_a_def mm_mask_def)
  then show ?thesis using matmul_example h2 h3 r(1) by simp
qed

end
